theory Spec2Isabelle
  imports Main
begin

section \<open>Custom borders plugin: data model\<close>

text \<open>
  The development embeds \<^verbatim>\<open>src/plugins/customBorders/customBorders.js\<close>.
  Border objects are JavaScript objects that the plugin shares by reference between
  three places: the list \<^verbatim>\<open>this.savedBorders\<close>, the \<^verbatim>\<open>settings\<close> of an entry of
  \<^verbatim>\<open>hot.selection.highlight.customSelections\<close>, and the \<^verbatim>\<open>borders\<close> key of a cell's
  metadata. \<^verbatim>\<open>setBorder\<close> and \<^verbatim>\<open>extend\<close> mutate such an object in place, so the model
  keeps an explicit object store: a border object is an address, and the three
  places hold addresses.
\<close>

record cell_coords =
  row :: int
  col :: int

text \<open>A \<^verbatim>\<open>CellRange\<close>, or a plain object with the keys \<^verbatim>\<open>from\<close> and \<^verbatim>\<open>to\<close>.\<close>

record cell_range =
  range_from :: cell_coords
  range_to :: cell_coords

text \<open>
  One edge object. Each key may be missing, as in the descriptor \<^verbatim>\<open>{top: {}}\<close>;
  a missing key reads as \<^verbatim>\<open>undefined\<close>.
\<close>

record edge_style =
  hide :: "bool option"
  width :: "nat option"
  color :: "string option"

text \<open>
  The value found under an edge key: an object, or a falsy primitive such as the
  empty string of the documented example \<^verbatim>\<open>top: ''\<close> (reading a property of it
  gives \<^verbatim>\<open>undefined\<close>). The values \<^verbatim>\<open>null\<close> and \<^verbatim>\<open>undefined\<close>, on which
  \<^verbatim>\<open>value.hide\<close> throws, are outside this type.
\<close>

datatype edge_value = Obj edge_style | Falsy

datatype border_id = BorderId int int

record border_record =
  b_id :: border_id
  b_row :: int
  b_col :: int
  b_top :: edge_value
  b_right :: edge_value
  b_bottom :: edge_value
  b_left :: edge_value

text \<open>
  The edge keys of a caller's object (\<^verbatim>\<open>borderObject\<close>, or a configuration entry):
  \<open>None\<close> when the object has no such own property.
\<close>

record border_spec =
  s_top :: "edge_value option"
  s_right :: "edge_value option"
  s_bottom :: "edge_value option"
  s_left :: "edge_value option"

datatype edge = Top | Right | Bottom | Left

text \<open>
  The \<^verbatim>\<open>place\<close> argument of the context menu items: one of the four edge names, or
  \<^verbatim>\<open>'noBorders'\<close>.
\<close>

datatype place = Edge edge | NoBorders

text \<open>
  An element of the \<^verbatim>\<open>selection\<close> argument of \<^verbatim>\<open>setBorders\<close> and \<^verbatim>\<open>getBorders\<close>: an
  array \<^verbatim>\<open>[startRow, startColumn, endRow, endColumn]\<close>, or an object with the methods
  \<^verbatim>\<open>getTopLeftCorner\<close> and \<^verbatim>\<open>getBottomRightCorner\<close> and the keys \<^verbatim>\<open>from\<close>, \<^verbatim>\<open>to\<close>.
\<close>

datatype selection = Coords int int int int | Handle cell_range

text \<open>An element of the \<^verbatim>\<open>selected\<close> argument of \<^verbatim>\<open>prepareBorder\<close>: \<^verbatim>\<open>{start, end}\<close>.\<close>

record selected_range =
  sel_start :: cell_coords
  sel_end :: cell_coords

text \<open>
  The first argument of \<^verbatim>\<open>prepareBorderFromCustomAddedRange\<close>: a configuration
  entry, which has a \<^verbatim>\<open>range\<close> key and edge keys of its own, or an object that is
  itself the range and has no edge key.
\<close>

datatype row_descriptor = Described cell_range border_spec | PlainRange cell_range

text \<open>An entry of the \<^verbatim>\<open>customBorders\<close> setting: with a \<^verbatim>\<open>range\<close>, or with \<^verbatim>\<open>row\<close> and \<^verbatim>\<open>col\<close>.\<close>

datatype custom_border = RangeBorder cell_range border_spec | CellBorder int int border_spec

text \<open>The value of the \<^verbatim>\<open>customBorders\<close> setting.\<close>

datatype custom_borders_setting = Unset | NonArray | Array "custom_border list"

text \<open>
  An entry of \<^verbatim>\<open>customSelections\<close>: \<^verbatim>\<open>settings\<close> is the border object it was created
  with, \<^verbatim>\<open>cellRange\<close> is \<^verbatim>\<open>null\<close> after \<^verbatim>\<open>clear()\<close>.
\<close>

record custom_selection =
  settings :: nat
  cellRange :: "cell_range option"

record state =
  heap :: "nat \<Rightarrow> border_record"
  nextAddr :: nat
  savedBorders :: "nat list"
  customSelections :: "custom_selection list"
  cellMeta :: "int \<times> int \<Rightarrow> nat option"

definition emptyObject :: border_record where
  "emptyObject = \<lparr>b_id = BorderId 0 0, b_row = 0, b_col = 0, b_top = Falsy, b_right = Falsy,
     b_bottom = Falsy, b_left = Falsy\<rparr>"

text \<open>The plugin after its constructor, on a grid with no custom selection and no metadata.\<close>

definition initial :: state where
  "initial = \<lparr>heap = (\<lambda>_. emptyObject), nextAddr = 0, savedBorders = [],
     customSelections = [], cellMeta = (\<lambda>_. None)\<rparr>"

section \<open>Helpers of the repository that the plugin imports\<close>

text \<open>
  Modelled from the spec: \<^verbatim>\<open>utils.js\<close> (\<^verbatim>\<open>createId\<close>, \<^verbatim>\<open>createSingleEmptyBorder\<close>,
  \<^verbatim>\<open>createDefaultCustomBorder\<close>, \<^verbatim>\<open>createEmptyBorders\<close>, \<^verbatim>\<open>extendDefaultBorder\<close>) is
  not among the sources. The spec asks of \<^verbatim>\<open>createId\<close> only that it is deterministic
  and free of collisions, so an id is the pair of coordinates under a constructor.
  The spec leaves the default width and colour open; no theorem depends on the
  two values chosen here.
\<close>

definition createId :: "int \<Rightarrow> int \<Rightarrow> border_id" where
  "createId r c = BorderId r c"

definition defaultWidth :: nat where
  "defaultWidth = 1"

definition defaultColor :: string where
  "defaultColor = ''#000''"

definition createSingleEmptyBorder :: edge_value where
  "createSingleEmptyBorder = Obj \<lparr>hide = Some True, width = None, color = None\<rparr>"

definition createDefaultCustomBorder :: edge_value where
  "createDefaultCustomBorder =
     Obj \<lparr>hide = Some False, width = Some defaultWidth, color = Some defaultColor\<rparr>"

definition createEmptyBorders :: "int \<Rightarrow> int \<Rightarrow> border_record" where
  "createEmptyBorders r c =
     \<lparr>b_id = createId r c, b_row = r, b_col = c,
      b_top = createSingleEmptyBorder, b_right = createSingleEmptyBorder,
      b_bottom = createSingleEmptyBorder, b_left = createSingleEmptyBorder\<rparr>"

text \<open>
  Modelled from the spec: a value given under an edge key is merged over the default
  custom border; an empty or falsy value gives the default itself.
\<close>

definition mergeOverDefault :: "edge_value \<Rightarrow> edge_value" where
  "mergeOverDefault v =
     (case v of
        Falsy \<Rightarrow> createDefaultCustomBorder
      | Obj e \<Rightarrow>
          Obj \<lparr>hide = (case hide e of Some h \<Rightarrow> Some h | None \<Rightarrow> Some False),
               width = (case width e of Some w \<Rightarrow> Some w | None \<Rightarrow> Some defaultWidth),
               color = (case color e of Some c \<Rightarrow> Some c | None \<Rightarrow> Some defaultColor)\<rparr>)"

text \<open>
  Modelled from the spec: each edge key present in the partial object replaces the
  edge of the record by the merged value; an absent key leaves the record's edge.
\<close>

definition extendDefaultBorder :: "border_record \<Rightarrow> border_spec \<Rightarrow> border_record" where
  "extendDefaultBorder defaultBorder customBorder =
     defaultBorder
       \<lparr>b_top := (case s_top customBorder of None \<Rightarrow> b_top defaultBorder
                  | Some v \<Rightarrow> mergeOverDefault v),
        b_right := (case s_right customBorder of None \<Rightarrow> b_right defaultBorder
                  | Some v \<Rightarrow> mergeOverDefault v),
        b_bottom := (case s_bottom customBorder of None \<Rightarrow> b_bottom defaultBorder
                  | Some v \<Rightarrow> mergeOverDefault v),
        b_left := (case s_left customBorder of None \<Rightarrow> b_left defaultBorder
                  | Some v \<Rightarrow> mergeOverDefault v)\<rparr>"

text \<open>An object with no edge key: \<^verbatim>\<open>{}\<close>, and the spec's "empty edge spec".\<close>

definition emptySpec :: border_spec where
  "emptySpec = \<lparr>s_top = None, s_right = None, s_bottom = None, s_left = None\<rparr>"

text \<open>A stored border object read as a configuration entry: all four edge keys are present.\<close>

definition specOfRecord :: "border_record \<Rightarrow> border_spec" where
  "specOfRecord b =
     \<lparr>s_top = Some (b_top b), s_right = Some (b_right b),
      s_bottom = Some (b_bottom b), s_left = Some (b_left b)\<rparr>"

text \<open>
  \<^verbatim>\<open>Array.prototype.indexOf\<close> and the index at which an \<^verbatim>\<open>arrayEach\<close> callback first
  returns \<^verbatim>\<open>false\<close>; \<open>None\<close> stands for \<^verbatim>\<open>-1\<close> and for a loop that runs to the end.
\<close>

fun findIndex :: "('a \<Rightarrow> bool) \<Rightarrow> 'a list \<Rightarrow> nat option" where
  "findIndex P [] = None"
| "findIndex P (x # xs) = (if P x then Some 0 else map_option Suc (findIndex P xs))"

definition indexOf :: "'a \<Rightarrow> 'a list \<Rightarrow> nat option" where
  "indexOf v xs = findIndex (\<lambda>x. x = v) xs"

text \<open>\<^verbatim>\<open>array.splice(index, 1)\<close>.\<close>

definition splice :: "nat \<Rightarrow> 'a list \<Rightarrow> 'a list" where
  "splice index xs = take index xs @ drop (Suc index) xs"

text \<open>
  \<^verbatim>\<open>getTopLeftCorner\<close> and \<^verbatim>\<open>getBottomRightCorner\<close> of a \<^verbatim>\<open>CellRange\<close>: the least and
  the greatest row and column of its two ends.
\<close>

definition getTopLeftCorner :: "cell_range \<Rightarrow> cell_coords" where
  "getTopLeftCorner r =
     \<lparr>row = min (row (range_from r)) (row (range_to r)),
      col = min (col (range_from r)) (col (range_to r))\<rparr>"

definition getBottomRightCorner :: "cell_range \<Rightarrow> cell_coords" where
  "getBottomRightCorner r =
     \<lparr>row = max (row (range_from r)) (row (range_to r)),
      col = max (col (range_from r)) (col (range_to r))\<rparr>"

text \<open>\<^verbatim>\<open>rangeEach(rangeFrom, rangeTo, iteratee)\<close> visits \<open>[rangeFrom..rangeTo]\<close> in order.\<close>

definition rangeEach :: "int \<Rightarrow> int \<Rightarrow> (int \<Rightarrow> 's \<Rightarrow> 's) \<Rightarrow> 's \<Rightarrow> 's" where
  "rangeEach rangeFrom rangeTo iteratee s = fold iteratee [rangeFrom..rangeTo] s"

text \<open>\<^verbatim>\<open>arrayEach(array, iteratee)\<close> for a callback that never returns \<^verbatim>\<open>false\<close>.\<close>

definition arrayEach :: "'a list \<Rightarrow> ('a \<Rightarrow> 's \<Rightarrow> 's) \<Rightarrow> 's \<Rightarrow> 's" where
  "arrayEach array iteratee s = fold iteratee array s"

section \<open>The grid's metadata and the object store\<close>

definition setCellMeta :: "int \<Rightarrow> int \<Rightarrow> nat \<Rightarrow> state \<Rightarrow> state" where
  "setCellMeta r c border s = s\<lparr>cellMeta := (cellMeta s)((r, c) := Some border)\<rparr>"

definition removeCellMeta :: "int \<Rightarrow> int \<Rightarrow> state \<Rightarrow> state" where
  "removeCellMeta r c s = s\<lparr>cellMeta := (cellMeta s)((r, c) := None)\<rparr>"

text \<open>A new object: the next free address, holding the given fields.\<close>

definition newObject :: "border_record \<Rightarrow> state \<Rightarrow> nat \<times> state" where
  "newObject b s =
     (nextAddr s, s\<lparr>heap := (heap s)(nextAddr s := b), nextAddr := Suc (nextAddr s)\<rparr>)"

text \<open>\<^verbatim>\<open>bordersMeta[place] = value\<close>: an assignment to one key of a shared object.\<close>

definition assignEdge :: "edge \<Rightarrow> edge_value \<Rightarrow> border_record \<Rightarrow> border_record" where
  "assignEdge e v b =
     (case e of
        Top \<Rightarrow> b\<lparr>b_top := v\<rparr>
      | Right \<Rightarrow> b\<lparr>b_right := v\<rparr>
      | Bottom \<Rightarrow> b\<lparr>b_bottom := v\<rparr>
      | Left \<Rightarrow> b\<lparr>b_left := v\<rparr>)"

definition setEdge :: "nat \<Rightarrow> edge \<Rightarrow> edge_value \<Rightarrow> state \<Rightarrow> state" where
  "setEdge border e v s = s\<lparr>heap := (heap s)(border := assignEdge e v (heap s border))\<rparr>"

section \<open>The plugin\<close>

text \<open>The truth value of \<^verbatim>\<open>value.hide\<close>.\<close>

definition valueHide :: "edge_value \<Rightarrow> bool" where
  "valueHide v = (case v of Obj e \<Rightarrow> hide e = Some True | Falsy \<Rightarrow> False)"

text \<open>
  \<^verbatim>\<open>countHide\<close> reduces over \<^verbatim>\<open>Object.values(border)\<close>. The id is a string and the
  coordinates are numbers, whose \<^verbatim>\<open>hide\<close> is \<^verbatim>\<open>undefined\<close>, so the count is over the
  four edge values.
\<close>

definition countHide :: "border_record \<Rightarrow> nat" where
  "countHide border =
     fold (\<lambda>v accumulator. if valueHide v then accumulator + 1 else accumulator)
       [b_top border, b_right border, b_bottom border, b_left border] 0"

definition spliceBorder :: "border_id \<Rightarrow> state \<Rightarrow> state" where
  "spliceBorder borderId s =
     (case indexOf borderId (map (\<lambda>border. b_id (heap s border)) (savedBorders s)) of
        Some index \<Rightarrow> s\<lparr>savedBorders := splice index (savedBorders s)\<rparr>
      | None \<Rightarrow> s)"

text \<open>
  \<^verbatim>\<open>customSelections[index].clear()\<close> sets the entry's \<^verbatim>\<open>cellRange\<close> to \<^verbatim>\<open>null\<close>; the
  redraw \<^verbatim>\<open>hot.view.wt.draw(true)\<close> changes nothing of this state.
\<close>

definition clearBordersFromSelectionSettings :: "border_id \<Rightarrow> state \<Rightarrow> state" where
  "clearBordersFromSelectionSettings borderId s =
     (case indexOf borderId
             (map (\<lambda>customSelection. b_id (heap s (settings customSelection)))
                (customSelections s)) of
        Some index \<Rightarrow>
          s\<lparr>customSelections :=
              (customSelections s)
                [index := (customSelections s ! index)\<lparr>cellRange := None\<rparr>]\<rparr>
      | None \<Rightarrow> s)"

definition clearNullCellRange :: "state \<Rightarrow> state" where
  "clearNullCellRange s =
     (case findIndex (\<lambda>customSelection. cellRange customSelection = None)
             (customSelections s) of
        Some index \<Rightarrow> s\<lparr>customSelections := splice index (customSelections s)\<rparr>
      | None \<Rightarrow> s)"

definition removeAllBorders :: "int \<Rightarrow> int \<Rightarrow> state \<Rightarrow> state" where
  "removeAllBorders r c s =
     (let borderId = createId r c;
          s1 = spliceBorder borderId s;
          s2 = clearBordersFromSelectionSettings borderId s1;
          s3 = clearNullCellRange s2
      in removeCellMeta r c s3)"

definition checkSavedBorders :: "nat \<Rightarrow> state \<Rightarrow> bool \<times> state" where
  "checkSavedBorders border s =
     (let hideCount = countHide (heap s border)
      in if hideCount = 4 then (True, spliceBorder (b_id (heap s border)) s)
         else
           (case findIndex (\<lambda>savedBorder. b_id (heap s border) = b_id (heap s savedBorder))
                   (savedBorders s) of
              Some index \<Rightarrow> (True, s\<lparr>savedBorders := (savedBorders s)[index := border]\<rparr>)
            | None \<Rightarrow> (False, s)))"

text \<open>
  \<^verbatim>\<open>toggleHiddenClass\<close> acts on the entry's DOM helpers only, so what remains of
  \<^verbatim>\<open>checkCustomSelectionsFromContextMenu\<close> is its result.
\<close>

definition checkCustomSelectionsFromContextMenu :: "nat \<Rightarrow> state \<Rightarrow> bool" where
  "checkCustomSelectionsFromContextMenu border s =
     (findIndex (\<lambda>customSelection. b_id (heap s border) = b_id (heap s (settings customSelection)))
        (customSelections s) \<noteq> None)"

text \<open>
  \<^verbatim>\<open>extend(customSelection.settings, border)\<close> copies every own key of \<^verbatim>\<open>border\<close>
  into the entry's settings object, wherever else that object is referenced.
\<close>

definition checkCustomSelections :: "nat \<Rightarrow> cell_range \<Rightarrow> state \<Rightarrow> bool \<times> state" where
  "checkCustomSelections border rng s =
     (case findIndex (\<lambda>customSelection. b_id (heap s border) = b_id (heap s (settings customSelection)))
             (customSelections s) of
        Some index \<Rightarrow>
          (True,
           s\<lparr>heap := (heap s)(settings (customSelections s ! index) := heap s border),
             customSelections :=
               (customSelections s)
                 [index := (customSelections s ! index)\<lparr>cellRange := Some rng\<rparr>]\<rparr>)
      | None \<Rightarrow> (False, s))"

definition insertBorderIntoSettings :: "nat \<Rightarrow> state \<Rightarrow> state" where
  "insertBorderIntoSettings border s =
     (let (hasSavedBorders, s1) = checkSavedBorders border s;
          s2 = (if \<not> hasSavedBorders then s1\<lparr>savedBorders := savedBorders s1 @ [border]\<rparr> else s1);
          coordinates = \<lparr>row = b_row (heap s2 border), col = b_col (heap s2 border)\<rparr>;
          rng = \<lparr>range_from = coordinates, range_to = coordinates\<rparr>;
          (hasCustomSelections, s3) = checkCustomSelections border rng s2
      in if \<not> hasCustomSelections
         then s3\<lparr>customSelections :=
                  customSelections s3 @ [\<lparr>settings = border, cellRange = Some rng\<rparr>]\<rparr>
         else s3)"

definition prepareBorderFromCustomAdded :: "int \<Rightarrow> int \<Rightarrow> border_spec \<Rightarrow> state \<Rightarrow> state" where
  "prepareBorderFromCustomAdded r c borderDescriptor s =
     (let (border, s1) = newObject (extendDefaultBorder (createEmptyBorders r c) borderDescriptor) s;
          s2 = setCellMeta r c border s1
      in insertBorderIntoSettings border s2)"

text \<open>
  The body of the two nested \<^verbatim>\<open>rangeEach\<close> loops of
  \<^verbatim>\<open>prepareBorderFromCustomAddedRange\<close>, in two parts. First the four \<^verbatim>\<open>if\<close>
  statements: the fields of the new object, the counter \<^verbatim>\<open>add\<close>, and whether one of
  the four \<^verbatim>\<open>setCellMeta\<close> calls ran (each of them stores the same object).
\<close>

definition rangeCellBorder ::
  "cell_range \<Rightarrow> border_spec \<Rightarrow> int \<Rightarrow> int \<Rightarrow> border_record \<times> nat \<times> bool" where
  "rangeCellBorder rng borderDescriptor rowIndex colIndex =
     (let b0 = createEmptyBorders rowIndex colIndex;
          (b1, add1, meta1) =
            (if rowIndex = row (range_from rng)
             then (case s_top borderDescriptor of
                     Some v \<Rightarrow> (b0\<lparr>b_top := v\<rparr>, (1::nat), True)
                   | None \<Rightarrow> (b0, 1, False))
             else (b0, 0, False));
          (b2, add2, meta2) =
            (if rowIndex = row (range_to rng)
             then (case s_bottom borderDescriptor of
                     Some v \<Rightarrow> (b1\<lparr>b_bottom := v\<rparr>, add1 + 1, True)
                   | None \<Rightarrow> (b1, add1 + 1, meta1))
             else (b1, add1, meta1));
          (b3, add3, meta3) =
            (if colIndex = col (range_from rng)
             then (case s_left borderDescriptor of
                     Some v \<Rightarrow> (b2\<lparr>b_left := v\<rparr>, add2 + 1, True)
                   | None \<Rightarrow> (b2, add2 + 1, meta2))
             else (b2, add2, meta2))
      in if colIndex = col (range_to rng)
         then (case s_right borderDescriptor of
                 Some v \<Rightarrow> (b3\<lparr>b_right := v\<rparr>, add3 + 1, True)
               | None \<Rightarrow> (b3, add3 + 1, meta3))
         else (b3, add3, meta3))"

text \<open>Then the object is stored, and inserted when the cell lies on the boundary.\<close>

definition prepareRangeCell :: "cell_range \<Rightarrow> border_spec \<Rightarrow> int \<Rightarrow> int \<Rightarrow> state \<Rightarrow> state" where
  "prepareRangeCell rng borderDescriptor rowIndex colIndex s =
     (let (obj, add, meta) = rangeCellBorder rng borderDescriptor rowIndex colIndex;
          (border, s1) = newObject obj s;
          s2 = (if meta then setCellMeta rowIndex colIndex border s1 else s1)
      in if add > 0 then insertBorderIntoSettings border s2 else s2)"

definition prepareBorderFromCustomAddedRange ::
  "row_descriptor \<Rightarrow> border_spec option \<Rightarrow> state \<Rightarrow> state" where
  "prepareBorderFromCustomAddedRange rowDecriptor borderObject s =
     (let rng = (case rowDecriptor of Described r _ \<Rightarrow> r | PlainRange r \<Rightarrow> r);
          borderDescriptor =
            (case borderObject of
               Some b \<Rightarrow> b
             | None \<Rightarrow> (case rowDecriptor of Described _ e \<Rightarrow> e | PlainRange _ \<Rightarrow> emptySpec))
      in rangeEach (row (range_from rng)) (row (range_to rng))
           (\<lambda>rowIndex.
              rangeEach (col (range_from rng)) (col (range_to rng))
                (\<lambda>colIndex. prepareRangeCell rng borderDescriptor rowIndex colIndex)) s)"

text \<open>
  \<^verbatim>\<open>setBorder\<close> for one of the four edges (\<^verbatim>\<open>prepareBorder\<close> never passes
  \<^verbatim>\<open>'noBorders'\<close> on). The metadata's object is used when the cell has one; the
  assignment to \<^verbatim>\<open>bordersMeta[place]\<close> then changes that object. The second test of
  the source, \<^verbatim>\<open>bordersMeta.border === void 0\<close>, is about a key that the records of the
  spec do not have; the metadata is written by this plugin only, so an object found
  there is one that \<^verbatim>\<open>createEmptyBorders\<close> made.
\<close>

definition setBorder :: "int \<Rightarrow> int \<Rightarrow> edge \<Rightarrow> bool \<Rightarrow> state \<Rightarrow> state" where
  "setBorder r c place remove s =
     (let (bordersMeta, s0) =
            (case cellMeta s (r, c) of
               Some b \<Rightarrow> (b, s)
             | None \<Rightarrow> newObject (createEmptyBorders r c) s)
      in if remove
         then
           (let s1 = setEdge bordersMeta place createSingleEmptyBorder s0;
                hideCount = countHide (heap s1 bordersMeta)
            in if hideCount = 4 then removeAllBorders r c s1
               else
                 (let customSelectionsChecker = checkCustomSelectionsFromContextMenu bordersMeta s1;
                      s2 = (if \<not> customSelectionsChecker
                            then insertBorderIntoSettings bordersMeta s1 else s1)
                  in setCellMeta r c bordersMeta s2))
         else
           (let s1 = setEdge bordersMeta place createDefaultCustomBorder s0;
                customSelectionsChecker = checkCustomSelectionsFromContextMenu bordersMeta s1;
                s2 = (if \<not> customSelectionsChecker
                      then insertBorderIntoSettings bordersMeta s1 else s1)
            in setCellMeta r c bordersMeta s2))"

definition prepareBorder :: "selected_range list \<Rightarrow> place \<Rightarrow> bool \<Rightarrow> state \<Rightarrow> state" where
  "prepareBorder selected place remove s =
     arrayEach selected
       (\<lambda>sel.
          let start = sel_start sel; end' = sel_end sel
          in if row start = row end' \<and> col start = col end'
             then (case place of
                     NoBorders \<Rightarrow> removeAllBorders (row start) (col start)
                   | Edge e \<Rightarrow> setBorder (row start) (col start) e remove)
             else (case place of
                     NoBorders \<Rightarrow>
                       rangeEach (col start) (col end')
                         (\<lambda>colIndex.
                            rangeEach (row start) (row end')
                              (\<lambda>rowIndex. removeAllBorders rowIndex colIndex))
                   | Edge Top \<Rightarrow>
                       rangeEach (col start) (col end')
                         (\<lambda>topCol. setBorder (row start) topCol Top remove)
                   | Edge Right \<Rightarrow>
                       rangeEach (row start) (row end')
                         (\<lambda>rowRight. setBorder rowRight (col end') Right remove)
                   | Edge Bottom \<Rightarrow>
                       rangeEach (col start) (col end')
                         (\<lambda>bottomCol. setBorder (row end') bottomCol Bottom remove)
                   | Edge Left \<Rightarrow>
                       rangeEach (row start) (row end')
                         (\<lambda>rowLeft. setBorder rowLeft (col start) Left remove))) s"

text \<open>
  \<^verbatim>\<open>setBorders\<close>. When \<^verbatim>\<open>borderObject\<close> is \<^verbatim>\<open>undefined\<close> (the call from
  \<^verbatim>\<open>clearBorders\<close>), the single-cell branch hands it to \<^verbatim>\<open>extendDefaultBorder\<close>, which the
  spec reads as an empty edge specification.
\<close>

definition setBorders :: "selection list \<Rightarrow> border_spec option \<Rightarrow> state \<Rightarrow> state" where
  "setBorders selection borderObject s =
     arrayEach selection
       (\<lambda>cell.
          case cell of
            Handle h \<Rightarrow>
              (\<lambda>s0.
                 let topLeft = getTopLeftCorner h;
                     bottomRight = getBottomRightCorner h;
                     s1 = rangeEach (row topLeft) (row bottomRight)
                            (\<lambda>r. rangeEach (col topLeft) (col bottomRight)
                                   (\<lambda>column. removeAllBorders r column)) s0
                 in prepareBorderFromCustomAddedRange (PlainRange h) borderObject s1)
          | Coords startRow startColumn endRow endColumn \<Rightarrow>
              (\<lambda>s0.
                 if startRow = endRow \<and> startColumn = endColumn
                 then
                   (let s1 = removeAllBorders startRow startColumn s0
                    in prepareBorderFromCustomAdded startRow startColumn
                         (case borderObject of Some b \<Rightarrow> b | None \<Rightarrow> emptySpec) s1)
                 else
                   (let borderDescriptor =
                          \<lparr>range_from = \<lparr>row = startRow, col = startColumn\<rparr>,
                           range_to = \<lparr>row = endRow, col = endColumn\<rparr>\<rparr>;
                        s1 = fold (\<lambda>r. fold (\<lambda>c. removeAllBorders r c) [startColumn..endColumn])
                               [startRow..endRow] s0
                    in prepareBorderFromCustomAddedRange (PlainRange borderDescriptor)
                         borderObject s1))) s"

text \<open>The stored objects at one cell, in the order of \<^verbatim>\<open>savedBorders\<close>.\<close>

definition bordersAt :: "state \<Rightarrow> int \<Rightarrow> int \<Rightarrow> border_record list" where
  "bordersAt s r c =
     filter (\<lambda>border. b_row border = r \<and> b_col border = c) (map (heap s) (savedBorders s))"

definition getBorders :: "selection list \<Rightarrow> state \<Rightarrow> border_record list" where
  "getBorders selection s =
     concat (map
       (\<lambda>cell.
          case cell of
            Handle h \<Rightarrow>
              (let topLeft = getTopLeftCorner h; bottomRight = getBottomRightCorner h
               in concat (map (\<lambda>r. concat (map (\<lambda>column. bordersAt s r column)
                                       [col topLeft..col bottomRight]))
                            [row topLeft..row bottomRight]))
          | Coords startRow startColumn endRow endColumn \<Rightarrow>
              (if startRow = endRow \<and> startColumn = endColumn
               then bordersAt s startRow startColumn
               else concat (map (\<lambda>r. concat (map (\<lambda>c. bordersAt s r c)
                                       [startColumn..endColumn]))
                              [startRow..endRow])))
       selection)"

definition clearBorders :: "selection list option \<Rightarrow> state \<Rightarrow> state" where
  "clearBorders selection s =
     (case selection of
        None \<Rightarrow>
          arrayEach (savedBorders s)
            (\<lambda>border s0.
               let s1 = clearBordersFromSelectionSettings (b_id (heap s0 border)) s0
               in removeCellMeta (b_row (heap s1 border)) (b_col (heap s1 border)) s1) s
      | Some sel \<Rightarrow> setBorders sel None s)"

definition createCustomBorders :: "custom_border list \<Rightarrow> state \<Rightarrow> state" where
  "createCustomBorders customBorders s =
     arrayEach customBorders
       (\<lambda>customBorder.
          case customBorder of
            RangeBorder rng spec \<Rightarrow>
              prepareBorderFromCustomAddedRange (Described rng spec) None
          | CellBorder r c spec \<Rightarrow> prepareBorderFromCustomAdded r c spec) s"

text \<open>
  \<^verbatim>\<open>createCustomBorders(this.savedBorders)\<close>: \<^verbatim>\<open>arrayEach\<close> reads the length once and
  then \<^verbatim>\<open>array[index]\<close> from the live array, which the callback itself changes.
  \<open>n\<close> is the number of indices left, \<open>index\<close> the next one. An index past the
  end reads \<^verbatim>\<open>undefined\<close>, and \<^verbatim>\<open>customBorder.range\<close> throws: the result \<open>None\<close>.
  A stored object has no \<^verbatim>\<open>range\<close> key, so it takes the single-cell branch.
\<close>

primrec createCustomBordersSaved :: "nat \<Rightarrow> nat \<Rightarrow> state \<Rightarrow> state option" where
  "createCustomBordersSaved 0 index s = Some s"
| "createCustomBordersSaved (Suc n) index s =
     (if index < length (savedBorders s)
      then (let customBorder = heap s (savedBorders s ! index)
            in createCustomBordersSaved n (Suc index)
                 (prepareBorderFromCustomAdded (b_row customBorder) (b_col customBorder)
                    (specOfRecord customBorder) s))
      else None)"

text \<open>
  \<^verbatim>\<open>changeBorderSettings\<close>, with the value of the \<^verbatim>\<open>customBorders\<close> setting as an
  argument. An empty array becomes \<^verbatim>\<open>savedBorders\<close> itself; that the setting and the
  list are then one array is not modelled (a later call with that array behaves as
  the \<open>NonArray\<close> branch does).
\<close>

definition changeBorderSettings :: "custom_borders_setting \<Rightarrow> state \<Rightarrow> state option" where
  "changeBorderSettings customBorders s =
     (case customBorders of
        Array entries \<Rightarrow>
          Some (createCustomBorders entries
                  (if entries = [] then s\<lparr>savedBorders := []\<rparr> else s))
      | NonArray \<Rightarrow> createCustomBordersSaved (length (savedBorders s)) 0 s
      | Unset \<Rightarrow> Some s)"

definition disablePlugin :: "state \<Rightarrow> state" where
  "disablePlugin s = clearBorders None s"

definition updatePlugin :: "custom_borders_setting \<Rightarrow> state \<Rightarrow> state option" where
  "updatePlugin customBorders s = changeBorderSettings customBorders (disablePlugin s)"

section \<open>Selections used in the scenarios\<close>

text \<open>The edge value \<^verbatim>\<open>{}\<close> and the objects \<^verbatim>\<open>{top: {}}\<close> and \<^verbatim>\<open>{top: {}, left: {}}\<close>.\<close>

definition emptyStyle :: edge_value where
  "emptyStyle = Obj \<lparr>hide = None, width = None, color = None\<rparr>"

definition topOnly :: border_spec where
  "topOnly = \<lparr>s_top = Some emptyStyle, s_right = None, s_bottom = None, s_left = None\<rparr>"

text \<open>The object \<^verbatim>\<open>{top: d}\<close> where \<open>d\<close> is a copy of the default custom border.\<close>

definition topDefault :: border_spec where
  "topDefault =
     \<lparr>s_top = Some createDefaultCustomBorder, s_right = None, s_bottom = None, s_left = None\<rparr>"

definition topAndLeft :: border_spec where
  "topAndLeft =
     \<lparr>s_top = Some emptyStyle, s_right = None, s_bottom = None, s_left = Some emptyStyle\<rparr>"

definition coords :: "int \<Rightarrow> int \<Rightarrow> cell_coords" where
  "coords r c = \<lparr>row = r, col = c\<rparr>"

definition selectedCell :: "int \<Rightarrow> int \<Rightarrow> selected_range" where
  "selectedCell r c = \<lparr>sel_start = coords r c, sel_end = coords r c\<rparr>"


definition rangeOf :: "int \<Rightarrow> int \<Rightarrow> int \<Rightarrow> int \<Rightarrow> cell_range" where
  "rangeOf r1 c1 r2 c2 = \<lparr>range_from = coords r1 c1, range_to = coords r2 c2\<rparr>"

section \<open>Sequences of public operations\<close>

datatype operation =
    SetBorders "selection list" "border_spec option"
  | GetBorders "selection list"
  | ClearBorders "selection list option"
  | PrepareBorder "selected_range list" place bool
  | CreateCustomBorders "custom_border list"

fun run :: "operation \<Rightarrow> state \<Rightarrow> state" where
  "run (SetBorders selection borderObject) s = setBorders selection borderObject s"
| "run (GetBorders selection) s = s"
| "run (ClearBorders selection) s = clearBorders selection s"
| "run (PrepareBorder selected place remove) s = prepareBorder selected place remove s"
| "run (CreateCustomBorders customBorders) s = createCustomBorders customBorders s"

text \<open>The state after a sequence of operations on a new plugin.\<close>

definition after :: "operation list \<Rightarrow> state" where
  "after ops = fold run ops initial"

section \<open>The no-argument \<^verbatim>\<open>clearBorders\<close>, step by step\<close>

text \<open>
  \<open>overlayIndex\<close> is the index that \<^verbatim>\<open>clearBordersFromSelectionSettings\<close> computes,
  \<open>clearAt\<close> the call of \<^verbatim>\<open>clear()\<close> at that index, and \<open>clearOne\<close> the body of the
  loop of \<^verbatim>\<open>clearBorders\<close>.
\<close>

definition clearAt :: "nat option \<Rightarrow> custom_selection list \<Rightarrow> custom_selection list" where
  "clearAt index xs =
     (case index of Some i \<Rightarrow> xs[i := (xs ! i)\<lparr>cellRange := None\<rparr>] | None \<Rightarrow> xs)"

definition overlayIndex :: "state \<Rightarrow> border_id \<Rightarrow> nat option" where
  "overlayIndex s X =
     indexOf X (map (\<lambda>customSelection. b_id (heap s (settings customSelection)))
                  (customSelections s))"

definition clearOne :: "nat \<Rightarrow> state \<Rightarrow> state" where
  "clearOne border s0 =
     (let s1 = clearBordersFromSelectionSettings (b_id (heap s0 border)) s0
      in removeCellMeta (b_row (heap s1 border)) (b_col (heap s1 border)) s1)"

section \<open>Well-formed states\<close>

text \<open>
  What every state reached from \<open>initial\<close> satisfies: the three places hold
  allocated addresses; the id of an object is the id of its own coordinates; the
  metadata of a cell holds an object of that cell; the ids in \<^verbatim>\<open>savedBorders\<close> are
  distinct, and so are the ids in \<^verbatim>\<open>customSelections\<close>; and no object in
  \<^verbatim>\<open>savedBorders\<close> has four hidden edges.
\<close>

definition validAddrs :: "state \<Rightarrow> bool" where
  "validAddrs s \<longleftrightarrow>
     (\<forall>b\<in>set (savedBorders s). b < nextAddr s) \<and>
     (\<forall>b\<in>settings ` set (customSelections s). b < nextAddr s) \<and>
     (\<forall>k b. cellMeta s k = Some b \<longrightarrow> b < nextAddr s)"

definition keysOk :: "state \<Rightarrow> bool" where
  "keysOk s \<longleftrightarrow>
     (\<forall>b<nextAddr s. b_id (heap s b) = createId (b_row (heap s b)) (b_col (heap s b)))"

definition metaOk :: "state \<Rightarrow> bool" where
  "metaOk s \<longleftrightarrow>
     (\<forall>r c b. cellMeta s (r, c) = Some b \<longrightarrow> b_row (heap s b) = r \<and> b_col (heap s b) = c)"

definition storeUnique :: "state \<Rightarrow> bool" where
  "storeUnique s \<longleftrightarrow> distinct (map (\<lambda>b. b_id (heap s b)) (savedBorders s))"

definition overlayUnique :: "state \<Rightarrow> bool" where
  "overlayUnique s \<longleftrightarrow>
     distinct (map (\<lambda>customSelection. b_id (heap s (settings customSelection)))
                 (customSelections s))"

definition noHidden :: "state \<Rightarrow> bool" where
  "noHidden s \<longleftrightarrow> (\<forall>b\<in>set (savedBorders s). countHide (heap s b) \<noteq> 4)"

definition wfBase :: "state \<Rightarrow> bool" where
  "wfBase s \<longleftrightarrow>
     validAddrs s \<and> keysOk s \<and> metaOk s \<and> storeUnique s \<and> overlayUnique s"

definition cellAt :: "int \<Rightarrow> int \<Rightarrow> cell_range" where
  "cellAt r c = \<lparr>range_from = \<lparr>row = r, col = c\<rparr>, range_to = \<lparr>row = r, col = c\<rparr>\<rparr>"

definition storeStep :: "nat \<Rightarrow> state \<Rightarrow> state" where
  "storeStep border s =
     (let (hasSavedBorders, s1) = checkSavedBorders border s
      in if \<not> hasSavedBorders then s1\<lparr>savedBorders := savedBorders s1 @ [border]\<rparr> else s1)"

definition overlayStep :: "nat \<Rightarrow> state \<Rightarrow> state" where
  "overlayStep border s =
     (let coordinates = \<lparr>row = b_row (heap s border), col = b_col (heap s border)\<rparr>;
          rng = \<lparr>range_from = coordinates, range_to = coordinates\<rparr>;
          (hasCustomSelections, s3) = checkCustomSelections border rng s
      in if \<not> hasCustomSelections
         then s3\<lparr>customSelections :=
                  customSelections s3 @ [\<lparr>settings = border, cellRange = Some rng\<rparr>]\<rparr>
         else s3)"

definition wellFormed :: "state \<Rightarrow> bool" where
  "wellFormed s \<longleftrightarrow> wfBase s \<and> noHidden s"

section \<open>What is seen at one cell\<close>

text \<open>
  The object in the cell's metadata, the stored objects at the cell (\<open>bordersAt\<close>), and
  the objects of the overlay entries with the cell's id whose \<^verbatim>\<open>cellRange\<close> is not
  \<^verbatim>\<open>null\<close>. \<open>sameElsewhere r c s s'\<close> says that a step from \<open>s\<close> to \<open>s'\<close> wrote only
  objects with the id of the cell \<open>(r, c)\<close>, and added or removed in the three places
  only what belongs to that cell.
\<close>

definition metaAt :: "state \<Rightarrow> int \<Rightarrow> int \<Rightarrow> border_record option" where
  "metaAt s r c = map_option (heap s) (cellMeta s (r, c))"

definition liveAt :: "state \<Rightarrow> int \<Rightarrow> int \<Rightarrow> border_record list" where
  "liveAt s r c =
     map (\<lambda>customSelection. heap s (settings customSelection))
       (filter (\<lambda>customSelection.
                  b_id (heap s (settings customSelection)) = createId r c \<and>
                  cellRange customSelection \<noteq> None)
          (customSelections s))"

definition sameElsewhere :: "int \<Rightarrow> int \<Rightarrow> state \<Rightarrow> state \<Rightarrow> bool" where
  "sameElsewhere r c s s' \<longleftrightarrow>
     nextAddr s \<le> nextAddr s' \<and>
     (\<forall>a<nextAddr s. b_id (heap s' a) = b_id (heap s a)) \<and>
     (\<forall>a<nextAddr s. b_id (heap s a) \<noteq> createId r c \<longrightarrow> heap s' a = heap s a) \<and>
     (\<forall>a\<in>{nextAddr s..<nextAddr s'}. b_id (heap s' a) = createId r c) \<and>
     filter (\<lambda>a. b_id (heap s' a) \<noteq> createId r c) (savedBorders s') =
       filter (\<lambda>a. b_id (heap s a) \<noteq> createId r c) (savedBorders s) \<and>
     filter (\<lambda>e. b_id (heap s' (settings e)) \<noteq> createId r c \<and> cellRange e \<noteq> None)
         (customSelections s') =
       filter (\<lambda>e. b_id (heap s (settings e)) \<noteq> createId r c \<and> cellRange e \<noteq> None)
         (customSelections s) \<and>
     (\<forall>k. k \<noteq> (r, c) \<longrightarrow> cellMeta s' k = cellMeta s k)"

text \<open>The object \<^verbatim>\<open>setBorder\<close> starts from: the cell's metadata, or empty borders.\<close>

definition bordersMetaOf :: "state \<Rightarrow> int \<Rightarrow> int \<Rightarrow> border_record" where
  "bordersMetaOf s r c =
     (case cellMeta s (r, c) of Some b \<Rightarrow> heap s b | None \<Rightarrow> createEmptyBorders r c)"

definition cellView ::
  "state \<Rightarrow> int \<Rightarrow> int \<Rightarrow> border_record option \<times> border_record list \<times> border_record list" where
  "cellView s r c = (metaAt s r c, bordersAt s r c, liveAt s r c)"

text \<open>After \<^verbatim>\<open>bordersMeta[place] = value\<close>: insert unless an overlay entry exists, store the metadata.\<close>

definition finishBorder :: "int \<Rightarrow> int \<Rightarrow> nat \<Rightarrow> state \<Rightarrow> state" where
  "finishBorder r c bm s1 =
     setCellMeta r c bm
       (if \<not> checkCustomSelectionsFromContextMenu bm s1
        then insertBorderIntoSettings bm s1 else s1)"

text \<open>The ids present in the store, and the ids of the live entries of the overlay collection.\<close>

definition storeIds :: "state \<Rightarrow> border_id set" where
  "storeIds s = set (map (\<lambda>border. b_id (heap s border)) (savedBorders s))"

definition liveIds :: "state \<Rightarrow> border_id set" where
  "liveIds s =
     set (map (\<lambda>customSelection. b_id (heap s (settings customSelection)))
            (filter (\<lambda>customSelection. cellRange customSelection \<noteq> None) (customSelections s)))"

definition synced :: "state \<Rightarrow> bool" where
  "synced s \<longleftrightarrow> wellFormed s \<and> storeIds s \<subseteq> liveIds s"

text \<open>
  The object that \<^verbatim>\<open>prepareBorderFromCustomAddedRange\<close> builds for the only cell of a
  one-cell range: each edge key of the descriptor is assigned as it is.
\<close>

definition rawBorders :: "int \<Rightarrow> int \<Rightarrow> border_spec \<Rightarrow> border_record" where
  "rawBorders r c spec =
     \<lparr>b_id = createId r c, b_row = r, b_col = c,
      b_top = (case s_top spec of Some v \<Rightarrow> v | None \<Rightarrow> createSingleEmptyBorder),
      b_right = (case s_right spec of Some v \<Rightarrow> v | None \<Rightarrow> createSingleEmptyBorder),
      b_bottom = (case s_bottom spec of Some v \<Rightarrow> v | None \<Rightarrow> createSingleEmptyBorder),
      b_left = (case s_left spec of Some v \<Rightarrow> v | None \<Rightarrow> createSingleEmptyBorder)\<rparr>"

text \<open>
  The record that \<^verbatim>\<open>createCustomBorders(this.savedBorders)\<close> builds from a stored
  object: empty borders at its cell, extended by its four edges.
\<close>

definition reapplied :: "border_record \<Rightarrow> border_record" where
  "reapplied b =
     extendDefaultBorder (createEmptyBorders (b_row b) (b_col b)) (specOfRecord b)"

text \<open>Which of the four edges of a record are hidden: top, right, bottom, left.\<close>

definition hiddenEdges :: "border_record \<Rightarrow> bool \<times> bool \<times> bool \<times> bool" where
  "hiddenEdges b =
     (valueHide (b_top b), valueHide (b_right b), valueHide (b_bottom b), valueHide (b_left b))"

section \<open>Lists\<close>

lemma findIndex_None_iff: "findIndex P xs = None \<longleftrightarrow> (\<forall>x\<in>set xs. \<not> P x)"
  by (induction xs) auto

lemma findIndex_SomeD:
  "findIndex P xs = Some i \<Longrightarrow> i < length xs \<and> P (xs ! i) \<and> (\<forall>j<i. \<not> P (xs ! j))"
proof (induction xs arbitrary: i)
  case Nil
  then show ?case by simp
next
  case (Cons x xs)
  show ?case
  proof (cases "P x")
    case True
    with Cons.prems show ?thesis by simp
  next
    case False
    with Cons.prems obtain k where k: "findIndex P xs = Some k" "i = Suc k"
      by auto
    from Cons.IH [OF k(1)] False k(2) show ?thesis
      by (auto simp: nth_Cons split: nat.splits)
  qed
qed

lemma indexOf_map: "indexOf v (map f xs) = findIndex (\<lambda>x. f x = v) xs"
  unfolding indexOf_def by (induction xs) auto

lemma splice_Cons_0 [simp]: "splice 0 (x # xs) = xs"
  by (simp add: splice_def)

lemma splice_Cons_Suc [simp]: "splice (Suc i) (x # xs) = x # splice i xs"
  by (simp add: splice_def)

lemma splice_Nil [simp]: "splice i [] = []"
  by (simp add: splice_def)

lemma set_splice_subset: "set (splice i xs) \<subseteq> set xs"
  unfolding splice_def by (auto dest: in_set_takeD in_set_dropD)

lemma distinct_map_splice: "distinct (map f xs) \<Longrightarrow> distinct (map f (splice i xs))"
proof (induction xs arbitrary: i)
  case Nil
  then show ?case by simp
next
  case (Cons x xs)
  show ?case
  proof (cases i)
    case 0
    with Cons.prems show ?thesis by simp
  next
    case (Suc k)
    from Cons.prems have "f x \<notin> f ` set (splice k xs)"
      using set_splice_subset [of k xs] by auto
    with Cons.prems Cons.IH [of k] Suc show ?thesis by simp
  qed
qed

lemma overlayUnique_settings:
  "overlayUnique s \<longleftrightarrow>
     distinct (map (\<lambda>a. b_id (heap s a)) (map settings (customSelections s)))"
  by (simp add: overlayUnique_def comp_def)

lemma splice_findIndex_filter:
  "distinct (map f xs) \<Longrightarrow> findIndex (\<lambda>x. f x = v) xs = Some i \<Longrightarrow>
     splice i xs = filter (\<lambda>x. f x \<noteq> v) xs"
proof (induction xs arbitrary: i)
  case Nil
  then show ?case by simp
next
  case (Cons x xs)
  show ?case
  proof (cases "f x = v")
    case True
    with Cons.prems have "i = 0" by simp
    moreover from True Cons.prems(1) have "\<forall>y\<in>set xs. f y \<noteq> v"
      by (auto intro: rev_image_eqI)
    then have "filter (\<lambda>x. f x \<noteq> v) xs = xs" by (simp add: filter_id_conv)
    ultimately show ?thesis using True by simp
  next
    case False
    with Cons.prems obtain k where k: "findIndex (\<lambda>x. f x = v) xs = Some k" "i = Suc k"
      by auto
    with Cons.IH [of k] Cons.prems(1) False show ?thesis by simp
  qed
qed

lemma findIndex_None_filter:
  "findIndex (\<lambda>x. f x = v) xs = None \<Longrightarrow> filter (\<lambda>x. f x \<noteq> v) xs = xs"
  by (simp add: findIndex_None_iff filter_id_conv)

lemma map_list_update_same:
  "i < length xs \<Longrightarrow> f y = f (xs ! i) \<Longrightarrow> map f (xs[i := y]) = map f xs"
  by (simp add: map_update list_update_same_conv)

subsection \<open>What each step does to the state\<close>

lemma spliceBorder_filter:
  "storeUnique s \<Longrightarrow>
     spliceBorder X s = s\<lparr>savedBorders := filter (\<lambda>b. b_id (heap s b) \<noteq> X) (savedBorders s)\<rparr>"
  unfolding spliceBorder_def storeUnique_def indexOf_map
  by (auto split: option.splits simp: findIndex_None_filter splice_findIndex_filter)

lemma spliceBorder_fields [simp]:
  "heap (spliceBorder X s) = heap s"
  "nextAddr (spliceBorder X s) = nextAddr s"
  "customSelections (spliceBorder X s) = customSelections s"
  "cellMeta (spliceBorder X s) = cellMeta s"
  by (auto simp: spliceBorder_def split: option.splits)

lemma clearSel_fields [simp]:
  "heap (clearBordersFromSelectionSettings X s) = heap s"
  "nextAddr (clearBordersFromSelectionSettings X s) = nextAddr s"
  "savedBorders (clearBordersFromSelectionSettings X s) = savedBorders s"
  "cellMeta (clearBordersFromSelectionSettings X s) = cellMeta s"
  by (auto simp: clearBordersFromSelectionSettings_def split: option.splits)

lemma clearSel_settings:
  "map settings (customSelections (clearBordersFromSelectionSettings X s)) =
     map settings (customSelections s)"
  unfolding clearBordersFromSelectionSettings_def indexOf_map
  by (auto split: option.splits dest!: findIndex_SomeD simp: map_list_update_same)

lemma clearSel_settings_set [simp]:
  "settings ` set (customSelections (clearBordersFromSelectionSettings X s)) =
     settings ` set (customSelections s)"
  using clearSel_settings [of X s] by (metis set_map)

lemma clearNull_fields [simp]:
  "heap (clearNullCellRange s) = heap s"
  "nextAddr (clearNullCellRange s) = nextAddr s"
  "savedBorders (clearNullCellRange s) = savedBorders s"
  "cellMeta (clearNullCellRange s) = cellMeta s"
  by (auto simp: clearNullCellRange_def split: option.splits)

lemma clearNull_subset:
  "set (customSelections (clearNullCellRange s)) \<subseteq> set (customSelections s)"
  by (auto simp: clearNullCellRange_def split: option.splits
        dest: subsetD [OF set_splice_subset])

lemma removeAllBorders_fields [simp]:
  "heap (removeAllBorders r c s) = heap s"
  "nextAddr (removeAllBorders r c s) = nextAddr s"
  "cellMeta (removeAllBorders r c s) = (cellMeta s)((r, c) := None)"
  by (simp_all add: removeAllBorders_def removeCellMeta_def Let_def)

lemma removeAllBorders_store:
  "storeUnique s \<Longrightarrow>
     savedBorders (removeAllBorders r c s) =
       filter (\<lambda>b. b_id (heap s b) \<noteq> createId r c) (savedBorders s)"
  by (simp add: removeAllBorders_def removeCellMeta_def Let_def spliceBorder_filter)

lemma removeAllBorders_overlay_subset:
  "settings ` set (customSelections (removeAllBorders r c s)) \<subseteq>
     settings ` set (customSelections s)"
proof -
  let ?s2 = "clearBordersFromSelectionSettings (createId r c) (spliceBorder (createId r c) s)"
  have "customSelections (removeAllBorders r c s) = customSelections (clearNullCellRange ?s2)"
    by (simp add: removeAllBorders_def removeCellMeta_def Let_def)
  moreover have "settings ` set (customSelections (clearNullCellRange ?s2)) \<subseteq>
      settings ` set (customSelections ?s2)"
    by (rule image_mono [OF clearNull_subset])
  moreover have "settings ` set (customSelections ?s2) = settings ` set (customSelections s)"
    by simp
  ultimately show ?thesis by simp
qed

lemma removeAllBorders_wfBase:
  assumes "wfBase s"
  shows "wfBase (removeAllBorders r c s)"
proof -
  from assms have u: "storeUnique s" by (simp add: wfBase_def)
  have "validAddrs (removeAllBorders r c s)"
    using assms removeAllBorders_overlay_subset [of r c s]
    unfolding wfBase_def validAddrs_def
    by (auto simp: removeAllBorders_store [OF u] split: if_splits)
  moreover have "keysOk (removeAllBorders r c s)"
    using assms unfolding wfBase_def keysOk_def by simp
  moreover have "metaOk (removeAllBorders r c s)"
    using assms unfolding wfBase_def metaOk_def by simp
  moreover have "storeUnique (removeAllBorders r c s)"
    using u unfolding storeUnique_def
    by (simp add: removeAllBorders_store [OF u] distinct_map_filter)
  moreover have "overlayUnique (removeAllBorders r c s)"
  proof -
    let ?s2 = "clearBordersFromSelectionSettings (createId r c) (spliceBorder (createId r c) s)"
    from assms have "overlayUnique ?s2"
      by (simp add: wfBase_def overlayUnique_settings clearSel_settings)
    then have "overlayUnique (clearNullCellRange ?s2)"
      unfolding overlayUnique_def
      by (auto simp: clearNullCellRange_def distinct_map_splice split: option.splits)
    then show ?thesis
      by (simp add: overlayUnique_def removeAllBorders_def removeCellMeta_def Let_def)
  qed
  ultimately show ?thesis by (simp add: wfBase_def)
qed

lemma removeAllBorders_noHidden:
  assumes "wfBase s" "\<forall>b\<in>set (savedBorders s). b_id (heap s b) \<noteq> createId r c \<longrightarrow> countHide (heap s b) \<noteq> 4"
  shows "noHidden (removeAllBorders r c s)"
proof -
  from assms have u: "storeUnique s" by (simp add: wfBase_def)
  show ?thesis using assms(2) unfolding noHidden_def
    by (simp add: removeAllBorders_store [OF u])
qed

lemma removeAllBorders_wellFormed:
  assumes "wellFormed s"
  shows "wellFormed (removeAllBorders r c s)"
proof -
  from assms have b: "wfBase s" and h: "noHidden s" by (simp_all add: wellFormed_def)
  from h have "noHidden (removeAllBorders r c s)"
    by (intro removeAllBorders_noHidden [OF b]) (simp add: noHidden_def)
  with removeAllBorders_wfBase [OF b] show ?thesis by (simp add: wellFormed_def)
qed


lemma insertBorderIntoSettings_steps:
  "insertBorderIntoSettings border s = overlayStep border (storeStep border s)"
  by (simp add: insertBorderIntoSettings_def overlayStep_def storeStep_def Let_def
      split: prod.splits)

lemma createId_inject [simp]: "createId r c = createId r' c' \<longleftrightarrow> r = r' \<and> c = c'"
  by (simp add: createId_def)

lemma storeStep_fields [simp]:
  "heap (storeStep b s) = heap s"
  "nextAddr (storeStep b s) = nextAddr s"
  "customSelections (storeStep b s) = customSelections s"
  "cellMeta (storeStep b s) = cellMeta s"
  by (auto simp: storeStep_def checkSavedBorders_def Let_def split: option.splits)

lemma storeStep_cases:
  assumes "storeUnique s"
  obtains
    (hidden) "countHide (heap s b) = 4"
      "savedBorders (storeStep b s) =
         filter (\<lambda>a. b_id (heap s a) \<noteq> b_id (heap s b)) (savedBorders s)"
  | (replace) i where "countHide (heap s b) \<noteq> 4" "i < length (savedBorders s)"
      "b_id (heap s (savedBorders s ! i)) = b_id (heap s b)"
      "savedBorders (storeStep b s) = (savedBorders s)[i := b]"
  | (push) "countHide (heap s b) \<noteq> 4"
      "\<forall>a\<in>set (savedBorders s). b_id (heap s a) \<noteq> b_id (heap s b)"
      "savedBorders (storeStep b s) = savedBorders s @ [b]"
proof (cases "countHide (heap s b) = 4")
  case True
  then have "savedBorders (storeStep b s) =
         filter (\<lambda>a. b_id (heap s a) \<noteq> b_id (heap s b)) (savedBorders s)"
    by (simp add: storeStep_def checkSavedBorders_def spliceBorder_filter [OF assms])
  with True show ?thesis by (rule hidden)
next
  case False
  show ?thesis
  proof (cases "findIndex (\<lambda>savedBorder. b_id (heap s b) = b_id (heap s savedBorder))
                   (savedBorders s)")
    case None
    then have "\<forall>a\<in>set (savedBorders s). b_id (heap s a) \<noteq> b_id (heap s b)"
      by (auto simp: findIndex_None_iff)
    moreover have "savedBorders (storeStep b s) = savedBorders s @ [b]"
      using False None by (simp add: storeStep_def checkSavedBorders_def)
    ultimately show ?thesis using False by (intro push)
  next
    case (Some i)
    from findIndex_SomeD [OF Some]
    have "i < length (savedBorders s)" "b_id (heap s (savedBorders s ! i)) = b_id (heap s b)"
      by simp_all
    moreover have "savedBorders (storeStep b s) = (savedBorders s)[i := b]"
      using False Some by (simp add: storeStep_def checkSavedBorders_def)
    ultimately show ?thesis using False by (intro replace)
  qed
qed

lemma distinct_map_update_same:
  "distinct (map f xs) \<Longrightarrow> i < length xs \<Longrightarrow> f y = f (xs ! i) \<Longrightarrow>
     distinct (map f (xs[i := y]))"
  by (simp add: map_list_update_same)

lemma in_set_update_sameD:
  assumes "distinct (map f xs)" "i < length xs" "f y = f (xs ! i)" "a \<in> set (xs[i := y])"
    "f a = f y"
  shows "a = y"
proof -
  from assms(4) obtain j where j: "j < length xs" "a = xs[i := y] ! j"
    by (auto simp: in_set_conv_nth)
  show ?thesis
  proof (cases "j = i")
    case True
    with j assms(2) show ?thesis by simp
  next
    case False
    with j have "a = xs ! j" by simp
    with assms(3,5) have "map f xs ! j = map f xs ! i" using j(1) assms(2) by simp
    then have "j = i"
      using nth_eq_iff_index_eq [of "map f xs" j i] assms(1,2) j(1) by simp
    with False show ?thesis by simp
  qed
qed

lemma storeStep_own:
  assumes "storeUnique s" "a \<in> set (savedBorders (storeStep b s))"
    "b_id (heap s a) = b_id (heap s b)"
  shows "a = b \<and> countHide (heap s b) \<noteq> 4"
  using assms(1)
proof (cases rule: storeStep_cases [where b = b])
  case hidden
  with assms show ?thesis by simp
next
  case (replace i)
  with assms in_set_update_sameD [of "\<lambda>a. b_id (heap s a)" "savedBorders s" i b a]
  show ?thesis by (simp add: storeUnique_def)
next
  case push
  with assms show ?thesis by auto
qed

lemma storeStep_subset:
  assumes "storeUnique s"
  shows "set (savedBorders (storeStep b s)) \<subseteq> insert b (set (savedBorders s))"
  using assms
proof (cases rule: storeStep_cases [where b = b])
  case hidden
  then show ?thesis by auto
next
  case (replace i)
  then show ?thesis using set_update_subset_insert [of "savedBorders s" i b] by simp
next
  case push
  then show ?thesis by auto
qed

lemma storeStep_storeUnique:
  assumes "storeUnique s"
  shows "storeUnique (storeStep b s)"
  using assms
proof (cases rule: storeStep_cases [where b = b])
  case hidden
  with assms show ?thesis by (simp add: storeUnique_def distinct_map_filter)
next
  case (replace i)
  with assms show ?thesis by (simp add: storeUnique_def distinct_map_update_same)
next
  case push
  with assms show ?thesis by (auto simp: storeUnique_def)
qed

lemma storeStep_wellFormed:
  assumes "wellFormed s" "b < nextAddr s"
  shows "wellFormed (storeStep b s)"
proof -
  from assms have u: "storeUnique s" by (simp add: wellFormed_def wfBase_def)
  note sub = storeStep_subset [OF u, of b]
  have "validAddrs (storeStep b s)"
    using assms sub unfolding wellFormed_def wfBase_def validAddrs_def by auto
  moreover have "keysOk (storeStep b s)"
    using assms unfolding wellFormed_def wfBase_def keysOk_def by simp
  moreover have "metaOk (storeStep b s)"
    using assms unfolding wellFormed_def wfBase_def metaOk_def by simp
  moreover have "noHidden (storeStep b s)"
    unfolding noHidden_def
  proof
    fix a assume a: "a \<in> set (savedBorders (storeStep b s))"
    show "countHide (heap (storeStep b s) a) \<noteq> 4"
    proof (cases "a = b")
      case True
      with storeStep_own [OF u a] show ?thesis by simp
    next
      case False
      with a sub have "a \<in> set (savedBorders s)" by auto
      with assms(1) show ?thesis by (simp add: wellFormed_def noHidden_def)
    qed
  qed
  moreover have "overlayUnique (storeStep b s)"
    using assms unfolding wellFormed_def wfBase_def overlayUnique_def by simp
  ultimately show ?thesis using storeStep_storeUnique [OF u, of b]
    by (simp add: wellFormed_def wfBase_def)
qed


lemma overlayStep_fields [simp]:
  "nextAddr (overlayStep b s) = nextAddr s"
  "savedBorders (overlayStep b s) = savedBorders s"
  "cellMeta (overlayStep b s) = cellMeta s"
  by (auto simp: overlayStep_def checkCustomSelections_def Let_def split: option.splits)

lemma overlayStep_cases:
  obtains
    (found) i where "i < length (customSelections s)"
      "b_id (heap s (settings (customSelections s ! i))) = b_id (heap s b)"
      "\<forall>j<i. b_id (heap s (settings (customSelections s ! j))) \<noteq> b_id (heap s b)"
      "heap (overlayStep b s) = (heap s)(settings (customSelections s ! i) := heap s b)"
      "customSelections (overlayStep b s) =
         (customSelections s)[i := (customSelections s ! i)
            \<lparr>cellRange := Some (cellAt (b_row (heap s b)) (b_col (heap s b)))\<rparr>]"
  | (appended)
      "\<forall>e\<in>set (customSelections s). b_id (heap s (settings e)) \<noteq> b_id (heap s b)"
      "heap (overlayStep b s) = heap s"
      "customSelections (overlayStep b s) =
         customSelections s @
           [\<lparr>settings = b, cellRange = Some (cellAt (b_row (heap s b)) (b_col (heap s b)))\<rparr>]"
proof (cases "findIndex (\<lambda>customSelection. b_id (heap s b) = b_id (heap s (settings customSelection)))
             (customSelections s)")
  case None
  then have "\<forall>e\<in>set (customSelections s). b_id (heap s (settings e)) \<noteq> b_id (heap s b)"
    by (auto simp: findIndex_None_iff)
  moreover have "heap (overlayStep b s) = heap s"
    using None by (simp add: overlayStep_def checkCustomSelections_def Let_def cellAt_def)
  moreover have "customSelections (overlayStep b s) =
         customSelections s @
           [\<lparr>settings = b, cellRange = Some (cellAt (b_row (heap s b)) (b_col (heap s b)))\<rparr>]"
    using None by (simp add: overlayStep_def checkCustomSelections_def Let_def cellAt_def)
  ultimately show ?thesis by (rule appended)
next
  case (Some i)
  from findIndex_SomeD [OF Some]
  have "i < length (customSelections s)"
      "b_id (heap s (settings (customSelections s ! i))) = b_id (heap s b)"
      "\<forall>j<i. b_id (heap s (settings (customSelections s ! j))) \<noteq> b_id (heap s b)"
    by auto
  moreover have "heap (overlayStep b s) = (heap s)(settings (customSelections s ! i) := heap s b)"
    using Some by (simp add: overlayStep_def checkCustomSelections_def Let_def cellAt_def)
  moreover have "customSelections (overlayStep b s) =
         (customSelections s)[i := (customSelections s ! i)
            \<lparr>cellRange := Some (cellAt (b_row (heap s b)) (b_col (heap s b)))\<rparr>]"
    using Some by (simp add: overlayStep_def checkCustomSelections_def Let_def cellAt_def)
  ultimately show ?thesis by (rule found)
qed

lemma overlayStep_settings:
  "settings ` set (customSelections (overlayStep b s)) \<subseteq>
     insert b (settings ` set (customSelections s))"
proof (cases rule: overlayStep_cases [of s b])
  case (found i)
  then have "map settings (customSelections (overlayStep b s)) = map settings (customSelections s)"
    using found(1) by (simp add: map_list_update_same)
  then have "settings ` set (customSelections (overlayStep b s)) =
      settings ` set (customSelections s)"
    by (metis set_map)
  then show ?thesis by auto
next
  case appended
  then show ?thesis by auto
qed

text \<open>Only an object with the id of \<open>b\<close> is written, and it receives the obj of \<open>b\<close>.\<close>

lemma overlayStep_heap:
  assumes "validAddrs s" "keysOk s" "b < nextAddr s"
  shows "b_id (heap (overlayStep b s) a) = b_id (heap s a)"
    and "b_row (heap (overlayStep b s) a) = b_row (heap s a)"
    and "b_col (heap (overlayStep b s) a) = b_col (heap s a)"
    and "b_id (heap s a) \<noteq> b_id (heap s b) \<Longrightarrow> heap (overlayStep b s) a = heap s a"
    and "heap (overlayStep b s) b = heap s b"
proof -
  have "b_id (heap (overlayStep b s) a) = b_id (heap s a) \<and>
    b_row (heap (overlayStep b s) a) = b_row (heap s a) \<and>
    b_col (heap (overlayStep b s) a) = b_col (heap s a) \<and>
    (b_id (heap s a) \<noteq> b_id (heap s b) \<longrightarrow> heap (overlayStep b s) a = heap s a) \<and>
    heap (overlayStep b s) b = heap s b"
  proof (cases rule: overlayStep_cases [of s b])
    case (found i)
    let ?t = "settings (customSelections s ! i)"
    from found(1) assms(1) have "?t < nextAddr s"
      by (simp add: validAddrs_def)
    with assms(2,3) found(2) have "b_row (heap s ?t) = b_row (heap s b) \<and>
        b_col (heap s ?t) = b_col (heap s b)"
      unfolding keysOk_def by (metis createId_inject)
    with found(2,4) show ?thesis by auto
  next
    case appended
    then show ?thesis by simp
  qed
  then show "b_id (heap (overlayStep b s) a) = b_id (heap s a)"
    and "b_row (heap (overlayStep b s) a) = b_row (heap s a)"
    and "b_col (heap (overlayStep b s) a) = b_col (heap s a)"
    and "b_id (heap s a) \<noteq> b_id (heap s b) \<Longrightarrow> heap (overlayStep b s) a = heap s a"
    and "heap (overlayStep b s) b = heap s b"
    by simp_all
qed

lemma overlayStep_wellFormed:
  assumes "wellFormed s" "b < nextAddr s"
    and own: "\<forall>a\<in>set (savedBorders s). b_id (heap s a) = b_id (heap s b) \<longrightarrow> a = b"
  shows "wellFormed (overlayStep b s)"
proof -
  from assms have v: "validAddrs s" and k: "keysOk s"
    by (simp_all add: wellFormed_def wfBase_def)
  note hp = overlayStep_heap [OF v k assms(2)]
  have "validAddrs (overlayStep b s)"
    using v assms(2) overlayStep_settings [of b s] unfolding validAddrs_def by auto
  moreover have "keysOk (overlayStep b s)"
    using k unfolding keysOk_def by (simp add: hp)
  moreover have "metaOk (overlayStep b s)"
    using assms(1) unfolding wellFormed_def wfBase_def metaOk_def by (simp add: hp)
  moreover have "storeUnique (overlayStep b s)"
    using assms(1) unfolding wellFormed_def wfBase_def storeUnique_def by (simp add: hp)
  moreover have "overlayUnique (overlayStep b s)"
  proof (cases rule: overlayStep_cases [of s b])
    case (found i)
    then have "map settings (customSelections (overlayStep b s)) =
        map settings (customSelections s)"
      by (simp add: map_list_update_same)
    with assms(1) show ?thesis
      by (simp add: wellFormed_def wfBase_def overlayUnique_settings hp)
  next
    case appended
    with assms(1) show ?thesis
      by (auto simp: wellFormed_def wfBase_def overlayUnique_def hp)
  qed
  moreover have "noHidden (overlayStep b s)"
    unfolding noHidden_def
  proof
    fix a assume "a \<in> set (savedBorders (overlayStep b s))"
    then have a: "a \<in> set (savedBorders s)" by simp
    have "heap (overlayStep b s) a = heap s a"
    proof (cases "b_id (heap s a) = b_id (heap s b)")
      case True
      with own a have "a = b" by simp
      then show ?thesis by (simp add: hp)
    next
      case False
      then show ?thesis by (simp add: hp)
    qed
    with a assms(1) show "countHide (heap (overlayStep b s) a) \<noteq> 4"
      by (simp add: wellFormed_def noHidden_def)
  qed
  ultimately show ?thesis by (simp add: wellFormed_def wfBase_def)
qed

lemma insertBorderIntoSettings_wellFormed:
  assumes "wellFormed s" "b < nextAddr s"
  shows "wellFormed (insertBorderIntoSettings b s)"
proof -
  from assms have u: "storeUnique s" by (simp add: wellFormed_def wfBase_def)
  have "wellFormed (overlayStep b (storeStep b s))"
  proof (rule overlayStep_wellFormed)
    show "wellFormed (storeStep b s)" by (rule storeStep_wellFormed [OF assms])
    show "b < nextAddr (storeStep b s)" using assms(2) by simp
    show "\<forall>a\<in>set (savedBorders (storeStep b s)).
       b_id (heap (storeStep b s) a) = b_id (heap (storeStep b s) b) \<longrightarrow> a = b"
      using storeStep_own [OF u] by simp
  qed
  then show ?thesis by (simp add: insertBorderIntoSettings_steps)
qed


section \<open>Well-formedness is preserved\<close>

lemma countHide_4_iff:
  "countHide b = 4 \<longleftrightarrow>
     valueHide (b_top b) \<and> valueHide (b_right b) \<and> valueHide (b_bottom b) \<and> valueHide (b_left b)"
  by (simp add: countHide_def)

lemma valueHide_simps [simp]:
  "valueHide createSingleEmptyBorder"
  "\<not> valueHide createDefaultCustomBorder"
  "\<not> valueHide Falsy"
  by (simp_all add: valueHide_def createSingleEmptyBorder_def createDefaultCustomBorder_def)

lemma assignEdge_keys [simp]:
  "b_id (assignEdge e v b) = b_id b"
  "b_row (assignEdge e v b) = b_row b"
  "b_col (assignEdge e v b) = b_col b"
  by (cases e; simp add: assignEdge_def)+

lemma countHide_assign_default: "countHide (assignEdge e createDefaultCustomBorder b) \<noteq> 4"
  by (cases e) (simp_all add: countHide_4_iff assignEdge_def)

lemma createEmptyBorders_keys [simp]:
  "b_id (createEmptyBorders r c) = createId r c"
  "b_row (createEmptyBorders r c) = r"
  "b_col (createEmptyBorders r c) = c"
  by (simp_all add: createEmptyBorders_def)

lemma extendDefaultBorder_keys [simp]:
  "b_id (extendDefaultBorder b spec) = b_id b"
  "b_row (extendDefaultBorder b spec) = b_row b"
  "b_col (extendDefaultBorder b spec) = b_col b"
  by (simp_all add: extendDefaultBorder_def)

lemma rangeCellBorder_keys [simp]:
  "b_id (fst (rangeCellBorder rng spec r c)) = createId r c"
  "b_row (fst (rangeCellBorder rng spec r c)) = r"
  "b_col (fst (rangeCellBorder rng spec r c)) = c"
  by (simp_all add: rangeCellBorder_def Let_def split: option.splits)

lemma newObject_wellFormed:
  assumes "wellFormed s" "b_id obj = createId (b_row obj) (b_col obj)"
  shows "wellFormed (snd (newObject obj s))"
proof -
  let ?s = "snd (newObject obj s)"
  have f: "heap ?s = (heap s)(nextAddr s := obj)" "nextAddr ?s = Suc (nextAddr s)"
    "savedBorders ?s = savedBorders s" "customSelections ?s = customSelections s"
    "cellMeta ?s = cellMeta s"
    by (simp_all add: newObject_def)
  from assms(1) have v: "validAddrs s" by (simp add: wellFormed_def wfBase_def)
  have "validAddrs ?s" using v unfolding validAddrs_def f by (auto simp: less_Suc_eq)
  moreover have "keysOk ?s"
    using assms unfolding wellFormed_def wfBase_def keysOk_def f by (auto simp: less_Suc_eq)
  moreover have "metaOk ?s"
    unfolding metaOk_def
  proof (intro allI impI)
    fix r c b assume m: "cellMeta ?s (r, c) = Some b"
    with v have "b < nextAddr s" by (simp add: validAddrs_def f)
    with m assms(1) show "b_row (heap ?s b) = r \<and> b_col (heap ?s b) = c"
      by (simp add: wellFormed_def wfBase_def metaOk_def f)
  qed
  moreover have old: "\<forall>b\<in>set (savedBorders s). heap ?s b = heap s b"
    using v unfolding validAddrs_def f by auto
  have eq: "map (\<lambda>b. b_id (heap ?s b)) (savedBorders s) =
      map (\<lambda>b. b_id (heap s b)) (savedBorders s)"
    by (rule map_cong [OF refl]) (simp add: old)
  have "storeUnique ?s"
    using assms(1) unfolding wellFormed_def wfBase_def storeUnique_def f(3) eq by simp
  moreover have olds: "\<forall>e\<in>set (customSelections s). heap ?s (settings e) = heap s (settings e)"
    using v unfolding validAddrs_def f by auto
  have eqs: "map (\<lambda>e. b_id (heap ?s (settings e))) (customSelections s) =
      map (\<lambda>e. b_id (heap s (settings e))) (customSelections s)"
    by (rule map_cong [OF refl]) (simp add: olds)
  have "overlayUnique ?s"
    using assms(1) unfolding wellFormed_def wfBase_def overlayUnique_def f(4) eqs by simp
  moreover have "noHidden ?s"
    using assms(1) old unfolding wellFormed_def noHidden_def f(3) by simp
  ultimately show ?thesis by (simp add: wellFormed_def wfBase_def)
qed

lemma newObject_fields [simp]:
  "fst (newObject obj s) = nextAddr s"
  "heap (snd (newObject obj s)) = (heap s)(nextAddr s := obj)"
  "nextAddr (snd (newObject obj s)) = Suc (nextAddr s)"
  "savedBorders (snd (newObject obj s)) = savedBorders s"
  "customSelections (snd (newObject obj s)) = customSelections s"
  "cellMeta (snd (newObject obj s)) = cellMeta s"
  by (simp_all add: newObject_def)

lemma setCellMeta_fields [simp]:
  "heap (setCellMeta r c b s) = heap s"
  "nextAddr (setCellMeta r c b s) = nextAddr s"
  "savedBorders (setCellMeta r c b s) = savedBorders s"
  "customSelections (setCellMeta r c b s) = customSelections s"
  "cellMeta (setCellMeta r c b s) = (cellMeta s)((r, c) := Some b)"
  by (simp_all add: setCellMeta_def)

lemma setCellMeta_wellFormed:
  assumes "wellFormed s" "b < nextAddr s" "b_row (heap s b) = r" "b_col (heap s b) = c"
  shows "wellFormed (setCellMeta r c b s)"
  using assms
  unfolding wellFormed_def wfBase_def validAddrs_def keysOk_def metaOk_def storeUnique_def
    overlayUnique_def noHidden_def
  by auto

lemma setEdge_fields [simp]:
  "heap (setEdge b e v s) = (heap s)(b := assignEdge e v (heap s b))"
  "nextAddr (setEdge b e v s) = nextAddr s"
  "savedBorders (setEdge b e v s) = savedBorders s"
  "customSelections (setEdge b e v s) = customSelections s"
  "cellMeta (setEdge b e v s) = cellMeta s"
  by (simp_all add: setEdge_def)

lemma setEdge_keys [simp]:
  "b_id (heap (setEdge b e v s) a) = b_id (heap s a)"
  "b_row (heap (setEdge b e v s) a) = b_row (heap s a)"
  "b_col (heap (setEdge b e v s) a) = b_col (heap s a)"
  by simp_all

lemma setEdge_wfBase: "wfBase s \<Longrightarrow> wfBase (setEdge b e v s)"
  unfolding wfBase_def validAddrs_def keysOk_def metaOk_def storeUnique_def overlayUnique_def
  by (simp del: setEdge_fields(1))

lemma setEdge_wellFormed:
  assumes "wellFormed s" "countHide (assignEdge e v (heap s b)) \<noteq> 4"
  shows "wellFormed (setEdge b e v s)"
proof -
  have "noHidden (setEdge b e v s)"
    using assms unfolding wellFormed_def noHidden_def by auto
  with assms(1) setEdge_wfBase show ?thesis by (simp add: wellFormed_def)
qed

lemma prepareBorderFromCustomAdded_wellFormed:
  assumes "wellFormed s"
  shows "wellFormed (prepareBorderFromCustomAdded r c spec s)"
proof -
  let ?obj = "extendDefaultBorder (createEmptyBorders r c) spec"
  let ?s1 = "snd (newObject ?obj s)"
  have 1: "wellFormed ?s1" by (rule newObject_wellFormed [OF assms]) simp
  have 2: "wellFormed (setCellMeta r c (nextAddr s) ?s1)"
    by (rule setCellMeta_wellFormed [OF 1]) simp_all
  have "wellFormed (insertBorderIntoSettings (nextAddr s) (setCellMeta r c (nextAddr s) ?s1))"
    by (rule insertBorderIntoSettings_wellFormed [OF 2]) simp
  then show ?thesis
    by (simp add: prepareBorderFromCustomAdded_def Let_def case_prod_beta)
qed

lemma prepareRangeCell_wellFormed:
  assumes "wellFormed s"
  shows "wellFormed (prepareRangeCell rng spec r c s)"
proof -
  obtain obj add meta where rc: "rangeCellBorder rng spec r c = (obj, add, meta)"
    by (cases "rangeCellBorder rng spec r c") auto
  from rangeCellBorder_keys [of rng spec r c] rc
  have k: "b_id obj = createId r c" "b_row obj = r" "b_col obj = c" by simp_all
  let ?s1 = "snd (newObject obj s)"
  let ?s2 = "if meta then setCellMeta r c (nextAddr s) ?s1 else ?s1"
  have 1: "wellFormed ?s1" by (rule newObject_wellFormed [OF assms]) (simp add: k)
  have 2: "wellFormed ?s2"
    using 1 setCellMeta_wellFormed [OF 1, of "nextAddr s" r c] by (simp add: k)
  have 3: "wellFormed (insertBorderIntoSettings (nextAddr s) ?s2)"
    by (rule insertBorderIntoSettings_wellFormed [OF 2]) simp
  show ?thesis using 2 3
    by (auto simp: prepareRangeCell_def rc Let_def case_prod_beta split: if_splits)
qed

lemma setBorder_wellFormed:
  assumes "wellFormed s"
  shows "wellFormed (setBorder r c e rm s)"
proof -
  define p where "p = (case cellMeta s (r, c) of Some b \<Rightarrow> (b, s)
             | None \<Rightarrow> newObject (createEmptyBorders r c) s)"
  define bm where "bm = fst p"
  define s0 where "s0 = snd p"
  have p: "(case cellMeta s (r, c) of Some b \<Rightarrow> (b, s)
             | None \<Rightarrow> newObject (createEmptyBorders r c) s) = (bm, s0)"
    by (simp add: p_def bm_def s0_def)
  have s0: "wellFormed s0 \<and> bm < nextAddr s0 \<and> b_row (heap s0 bm) = r \<and> b_col (heap s0 bm) = c
      \<and> b_id (heap s0 bm) = createId r c"
  proof (cases "cellMeta s (r, c)")
    case None
    then have "bm = nextAddr s" "s0 = snd (newObject (createEmptyBorders r c) s)"
      by (simp_all add: bm_def s0_def p_def)
    with newObject_wellFormed [OF assms, of "createEmptyBorders r c"] show ?thesis by simp
  next
    case (Some b)
    then have "bm = b" "s0 = s" by (simp_all add: bm_def s0_def p_def)
    with Some assms show ?thesis
      unfolding wellFormed_def wfBase_def validAddrs_def keysOk_def metaOk_def by auto
  qed
  define finish where "finish = (\<lambda>s1.
      setCellMeta r c bm (if \<not> checkCustomSelectionsFromContextMenu bm s1
                            then insertBorderIntoSettings bm s1 else s1))"
  have fin: "wellFormed (finish s1)"
    if "wellFormed s1" "bm < nextAddr s1" "b_row (heap s1 bm) = r" "b_col (heap s1 bm) = c" for s1
  proof -
    let ?s2 = "if \<not> checkCustomSelectionsFromContextMenu bm s1
                            then insertBorderIntoSettings bm s1 else s1"
    have w: "wellFormed ?s2" using that insertBorderIntoSettings_wellFormed by simp
    have "nextAddr ?s2 = nextAddr s1" "b_row (heap ?s2 bm) = r" "b_col (heap ?s2 bm) = c"
      using that overlayStep_heap(2,3) [of "storeStep bm s1" bm bm]
        storeStep_wellFormed [of s1 bm]
      by (auto simp: insertBorderIntoSettings_steps wellFormed_def wfBase_def)
    with w that show ?thesis unfolding finish_def
      by (intro setCellMeta_wellFormed) simp_all
  qed
  show ?thesis
  proof (cases rm)
    case False
    let ?s1 = "setEdge bm e createDefaultCustomBorder s0"
    have "wellFormed ?s1" using s0 by (simp add: setEdge_wellFormed countHide_assign_default)
    then have "wellFormed (finish ?s1)" using s0 by (intro fin) simp_all
    then show ?thesis using False
      by (simp add: setBorder_def p Let_def finish_def)
  next
    case True
    let ?s1 = "setEdge bm e createSingleEmptyBorder s0"
    show ?thesis
    proof (cases "countHide (heap ?s1 bm) = 4")
      case c4: True
      from s0 have b: "wfBase ?s1" by (simp add: wellFormed_def setEdge_wfBase)
      have "noHidden (removeAllBorders r c ?s1)"
      proof (rule removeAllBorders_noHidden [OF b], intro ballI impI)
        fix a assume a: "a \<in> set (savedBorders ?s1)" "b_id (heap ?s1 a) \<noteq> createId r c"
        with s0 have "a \<noteq> bm" by auto
        with a(1) s0 show "countHide (heap ?s1 a) \<noteq> 4"
          by (simp add: wellFormed_def noHidden_def)
      qed
      with removeAllBorders_wfBase [OF b] have "wellFormed (removeAllBorders r c ?s1)"
        by (simp add: wellFormed_def)
      then show ?thesis using True c4
        by (simp add: setBorder_def p Let_def)
    next
      case False
      then have "wellFormed ?s1" using s0 by (intro setEdge_wellFormed) simp_all
      then have "wellFormed (finish ?s1)" using s0 by (intro fin) simp_all
      then show ?thesis using True False
        by (simp add: setBorder_def p Let_def finish_def)
    qed
  qed
qed


lemma fold_wellFormed:
  assumes "wellFormed s" "\<And>x s. wellFormed s \<Longrightarrow> wellFormed (f x s)"
  shows "wellFormed (fold f xs s)"
  using assms(1) by (induction xs arbitrary: s) (simp_all add: assms(2))

lemma initial_wellFormed: "wellFormed initial"
  by (simp add: wellFormed_def wfBase_def validAddrs_def keysOk_def metaOk_def storeUnique_def
      overlayUnique_def noHidden_def initial_def)

lemma removeCellMeta_fields [simp]:
  "heap (removeCellMeta r c s) = heap s"
  "nextAddr (removeCellMeta r c s) = nextAddr s"
  "savedBorders (removeCellMeta r c s) = savedBorders s"
  "customSelections (removeCellMeta r c s) = customSelections s"
  "cellMeta (removeCellMeta r c s) = (cellMeta s)((r, c) := None)"
  by (simp_all add: removeCellMeta_def)

lemma removeCellMeta_wellFormed: "wellFormed s \<Longrightarrow> wellFormed (removeCellMeta r c s)"
  unfolding wellFormed_def wfBase_def validAddrs_def keysOk_def metaOk_def storeUnique_def
    overlayUnique_def noHidden_def
  by auto

lemma clearSel_wellFormed:
  "wellFormed s \<Longrightarrow> wellFormed (clearBordersFromSelectionSettings X s)"
  unfolding wellFormed_def wfBase_def validAddrs_def keysOk_def metaOk_def storeUnique_def
    overlayUnique_settings noHidden_def
  by (simp add: clearSel_settings)

lemma prepareBorderFromCustomAddedRange_wellFormed:
  "wellFormed s \<Longrightarrow> wellFormed (prepareBorderFromCustomAddedRange d bo s)"
  unfolding prepareBorderFromCustomAddedRange_def rangeEach_def Let_def
  by (intro fold_wellFormed prepareRangeCell_wellFormed)

lemma setBorders_wellFormed:
  assumes "wellFormed s"
  shows "wellFormed (setBorders selection borderObject s)"
  unfolding setBorders_def arrayEach_def
proof (rule fold_wellFormed [OF assms])
  fix cell s0 assume w: "wellFormed (s0::state)"
  show "wellFormed ((case cell of
            Handle h \<Rightarrow>
              (\<lambda>s0.
                 let topLeft = getTopLeftCorner h;
                     bottomRight = getBottomRightCorner h;
                     s1 = rangeEach (row topLeft) (row bottomRight)
                            (\<lambda>r. rangeEach (col topLeft) (col bottomRight)
                                   (\<lambda>column. removeAllBorders r column)) s0
                 in prepareBorderFromCustomAddedRange (PlainRange h) borderObject s1)
          | Coords startRow startColumn endRow endColumn \<Rightarrow>
              (\<lambda>s0.
                 if startRow = endRow \<and> startColumn = endColumn
                 then
                   (let s1 = removeAllBorders startRow startColumn s0
                    in prepareBorderFromCustomAdded startRow startColumn
                         (case borderObject of Some b \<Rightarrow> b | None \<Rightarrow> emptySpec) s1)
                 else
                   (let borderDescriptor =
                          \<lparr>range_from = \<lparr>row = startRow, col = startColumn\<rparr>,
                           range_to = \<lparr>row = endRow, col = endColumn\<rparr>\<rparr>;
                        s1 = fold (\<lambda>r. fold (\<lambda>c. removeAllBorders r c) [startColumn..endColumn])
                               [startRow..endRow] s0
                    in prepareBorderFromCustomAddedRange (PlainRange borderDescriptor)
                         borderObject s1))) s0)"
  proof (cases cell)
    case (Handle h)
    show ?thesis unfolding Handle selection.case Let_def rangeEach_def
      by (intro prepareBorderFromCustomAddedRange_wellFormed fold_wellFormed
          removeAllBorders_wellFormed w)
  next
    case (Coords sr sc er ec)
    show ?thesis unfolding Coords selection.case Let_def
      by (auto intro!: prepareBorderFromCustomAddedRange_wellFormed fold_wellFormed
          removeAllBorders_wellFormed prepareBorderFromCustomAdded_wellFormed w)
  qed
qed

lemma prepareBorder_wellFormed:
  assumes "wellFormed s"
  shows "wellFormed (prepareBorder selected place remove s)"
  unfolding prepareBorder_def arrayEach_def
proof (rule fold_wellFormed [OF assms], goal_cases)
  case (1 sel s0)
  then show ?case
    unfolding Let_def rangeEach_def
    by (auto split: place.splits edge.splits
        intro!: fold_wellFormed removeAllBorders_wellFormed setBorder_wellFormed)
qed

lemma clearBorders_wellFormed:
  assumes "wellFormed s"
  shows "wellFormed (clearBorders selection s)"
proof (cases selection)
  case None
  show ?thesis unfolding None clearBorders_def option.case arrayEach_def Let_def
    by (intro fold_wellFormed assms removeCellMeta_wellFormed clearSel_wellFormed)
next
  case (Some sel)
  then show ?thesis by (simp add: clearBorders_def setBorders_wellFormed [OF assms])
qed

lemma createCustomBorders_wellFormed:
  assumes "wellFormed s"
  shows "wellFormed (createCustomBorders customBorders s)"
  unfolding createCustomBorders_def arrayEach_def
proof (rule fold_wellFormed [OF assms], goal_cases)
  case (1 x s0)
  then show ?case
    by (cases x)
      (simp_all add: prepareBorderFromCustomAddedRange_wellFormed
        prepareBorderFromCustomAdded_wellFormed)
qed

lemma run_wellFormed: "wellFormed s \<Longrightarrow> wellFormed (run op s)"
  by (cases op)
    (simp_all add: setBorders_wellFormed clearBorders_wellFormed prepareBorder_wellFormed
      createCustomBorders_wellFormed)

lemma after_wellFormed: "wellFormed (after ops)"
  unfolding after_def by (intro fold_wellFormed initial_wellFormed run_wellFormed)

text \<open>
  C1. After any sequence of public operations on a new plugin (\<^verbatim>\<open>setBorders\<close>,
  \<^verbatim>\<open>getBorders\<close>, \<^verbatim>\<open>clearBorders\<close>, \<^verbatim>\<open>prepareBorder\<close>, \<^verbatim>\<open>createCustomBorders\<close>), no object
  in \<^verbatim>\<open>savedBorders\<close> has all four edges hidden.
\<close>

theorem C1_no_hidden_record:
  "\<forall>border\<in>set (savedBorders (after ops)). countHide (heap (after ops) border) \<noteq> 4"
  using after_wellFormed [of ops] by (simp add: wellFormed_def noHidden_def)

theorem C1_no_hidden_record_witness:
  "savedBorders (after [PrepareBorder [selectedCell 1 1] (Edge Top) False,
                        PrepareBorder [selectedCell 1 1] (Edge Right) False,
                        PrepareBorder [selectedCell 1 1] (Edge Top) True]) = [0] \<and>
   countHide (heap (after [PrepareBorder [selectedCell 1 1] (Edge Top) False,
                           PrepareBorder [selectedCell 1 1] (Edge Right) False,
                           PrepareBorder [selectedCell 1 1] (Edge Top) True]) 0) \<noteq> 4"
proof -
  let ?ops = "[PrepareBorder [selectedCell 1 1] (Edge Top) False,
               PrepareBorder [selectedCell 1 1] (Edge Right) False,
               PrepareBorder [selectedCell 1 1] (Edge Top) True]"
  have s: "savedBorders (after ?ops) = [0]" by code_simp
  from C1_no_hidden_record [of ?ops] s show ?thesis by simp
qed

section \<open>Removal\<close>

lemma findIndex_map: "findIndex P (map f xs) = findIndex (\<lambda>x. P (f x)) xs"
  by (induction xs) auto

lemma overlayIndex_settings:
  "overlayIndex s X = findIndex (\<lambda>a. b_id (heap s a) = X) (map settings (customSelections s))"
  by (simp add: overlayIndex_def indexOf_map findIndex_map)

lemma clearSel_clearAt:
  "clearBordersFromSelectionSettings X s =
     s\<lparr>customSelections := clearAt (overlayIndex s X) (customSelections s)\<rparr>"
  by (simp add: clearBordersFromSelectionSettings_def clearAt_def overlayIndex_def
      split: option.splits)

lemma clearAt_length [simp]: "length (clearAt i xs) = length xs"
  by (simp add: clearAt_def split: option.splits)

lemma clearAt_settings [simp]: "map settings (clearAt i xs) = map settings xs"
proof (cases i)
  case None
  then show ?thesis by (simp add: clearAt_def)
next
  case (Some k)
  then show ?thesis
    by (cases "k < length xs") (simp_all add: clearAt_def map_list_update_same not_less list_update_beyond)
qed

lemma clearAt_nth:
  "j < length xs \<Longrightarrow>
     clearAt i xs ! j = (if i = Some j then (xs ! j)\<lparr>cellRange := None\<rparr> else xs ! j)"
  by (auto simp: clearAt_def split: option.splits)

lemma clearAt_idem: "clearAt i (clearAt i xs) = clearAt i xs"
  by (rule nth_equalityI) (simp_all add: clearAt_nth)

lemma clearAt_commute: "clearAt i (clearAt j xs) = clearAt j (clearAt i xs)"
  by (rule nth_equalityI) (simp_all add: clearAt_nth)

lemma clearOne_eq:
  "clearOne b s =
     s\<lparr>customSelections := clearAt (overlayIndex s (b_id (heap s b))) (customSelections s),
       cellMeta := (cellMeta s)((b_row (heap s b), b_col (heap s b)) := None)\<rparr>"
  by (simp add: clearOne_def Let_def clearSel_clearAt removeCellMeta_def)

lemma clearOne_fields [simp]:
  "heap (clearOne b s) = heap s"
  "nextAddr (clearOne b s) = nextAddr s"
  "savedBorders (clearOne b s) = savedBorders s"
  "map settings (customSelections (clearOne b s)) = map settings (customSelections s)"
  "length (customSelections (clearOne b s)) = length (customSelections s)"
  by (simp_all add: clearOne_eq)

lemma clearOne_overlayIndex [simp]: "overlayIndex (clearOne b s) X = overlayIndex s X"
  by (simp add: overlayIndex_settings)

lemma clearOne_idem: "clearOne b (clearOne b s) = clearOne b s"
  by (simp add: clearOne_eq [of b "clearOne b s"]) (simp add: clearOne_eq clearAt_idem)

lemma fun_upd_None_commute: "m(a := None, b := None) = m(b := None, a := None)"
  by (rule ext) simp

lemma clearOne_commute: "clearOne a (clearOne b s) = clearOne b (clearOne a s)"
proof -
  have "clearOne a (clearOne b s) =
    s\<lparr>customSelections := clearAt (overlayIndex s (b_id (heap s a)))
           (clearAt (overlayIndex s (b_id (heap s b))) (customSelections s)),
       cellMeta := (cellMeta s)((b_row (heap s b), b_col (heap s b)) := None,
           (b_row (heap s a), b_col (heap s a)) := None)\<rparr>"
    by (simp add: clearOne_eq [of a "clearOne b s"]) (simp add: clearOne_eq)
  moreover have "clearOne b (clearOne a s) =
    s\<lparr>customSelections := clearAt (overlayIndex s (b_id (heap s b)))
           (clearAt (overlayIndex s (b_id (heap s a))) (customSelections s)),
       cellMeta := (cellMeta s)((b_row (heap s a), b_col (heap s a)) := None,
           (b_row (heap s b), b_col (heap s b)) := None)\<rparr>"
    by (simp add: clearOne_eq [of b "clearOne a s"]) (simp add: clearOne_eq)
  ultimately show ?thesis
    by (simp add: clearAt_commute [of "overlayIndex s (b_id (heap s a))"]
        fun_upd_None_commute [of _ "(b_row (heap s a), b_col (heap s a))"])
qed

lemma fold_clearOne_commute: "clearOne a (fold clearOne bs s) = fold clearOne bs (clearOne a s)"
  by (induction bs arbitrary: s) (simp_all add: clearOne_commute)

lemma fold_clearOne_idem: "fold clearOne bs (fold clearOne bs s) = fold clearOne bs s"
proof (induction bs arbitrary: s)
  case Nil
  show ?case by simp
next
  case (Cons b bs)
  have "fold clearOne (b # bs) (fold clearOne (b # bs) s) =
      fold clearOne bs (clearOne b (fold clearOne bs (clearOne b s)))"
    by simp
  also have "\<dots> = fold clearOne bs (fold clearOne bs (clearOne b (clearOne b s)))"
    by (simp only: fold_clearOne_commute)
  also have "\<dots> = fold clearOne bs (clearOne b s)"
    by (simp only: clearOne_idem Cons.IH)
  finally show ?case by simp
qed

lemma fold_clearOne_fields [simp]:
  "heap (fold clearOne bs s) = heap s"
  "nextAddr (fold clearOne bs s) = nextAddr s"
  "savedBorders (fold clearOne bs s) = savedBorders s"
  "map settings (customSelections (fold clearOne bs s)) = map settings (customSelections s)"
  by (induction bs arbitrary: s) simp_all

lemma clearBorders_None: "clearBorders None s = fold clearOne (savedBorders s) s"
  by (simp add: clearBorders_def arrayEach_def clearOne_def [abs_def])

text \<open>Once null, an entry stays null, and removed metadata stays removed.\<close>

lemma fold_clearOne_mono:
  "(i < length (customSelections s) \<and> cellRange (customSelections s ! i) = None \<longrightarrow>
      cellRange (customSelections (fold clearOne bs s) ! i) = None) \<and>
   (cellMeta s k = None \<longrightarrow> cellMeta (fold clearOne bs s) k = None)"
proof (induction bs arbitrary: s)
  case Nil
  show ?case by simp
next
  case (Cons b bs)
  have "(i < length (customSelections s) \<and> cellRange (customSelections s ! i) = None \<longrightarrow>
      cellRange (customSelections (clearOne b s) ! i) = None) \<and>
   (cellMeta s k = None \<longrightarrow> cellMeta (clearOne b s) k = None)"
    by (simp add: clearOne_eq clearAt_nth)
  with Cons.IH [of "clearOne b s"] show ?case by simp
qed

lemma fold_clearOne_done:
  assumes "b \<in> set bs"
  shows "cellMeta (fold clearOne bs s) (b_row (heap s b), b_col (heap s b)) = None \<and>
     (\<forall>i. overlayIndex s (b_id (heap s b)) = Some i \<longrightarrow>
        cellRange (customSelections (fold clearOne bs s) ! i) = None)"
  using assms
proof (induction bs arbitrary: s)
  case Nil
  then show ?case by simp
next
  case (Cons a bs)
  show ?case
  proof (cases "a = b")
    case True
    have m: "cellMeta (clearOne b s) (b_row (heap s b), b_col (heap s b)) = None"
      by (simp add: clearOne_eq)
    have c: "cellRange (customSelections (clearOne b s) ! i) = None \<and>
        i < length (customSelections (clearOne b s))"
      if "overlayIndex s (b_id (heap s b)) = Some i" for i
    proof -
      from that have "i < length (customSelections s)"
        by (auto simp: overlayIndex_settings dest: findIndex_SomeD)
      with that show ?thesis by (simp add: clearOne_eq clearAt_nth)
    qed
    from m c fold_clearOne_mono [where s = "clearOne b s" and bs = bs] True show ?thesis
      by simp
  next
    case False
    with Cons.prems have "b \<in> set bs" by simp
    from Cons.IH [OF this, of "clearOne a s"] show ?thesis by simp
  qed
qed

text \<open>
  C2, as amended. \<^verbatim>\<open>clearBorders\<close> with no argument leaves \<^verbatim>\<open>savedBorders\<close> and every
  stored object as they are, and adds or removes no entry of \<^verbatim>\<open>customSelections\<close>.
  For every stored object it removes the \<^verbatim>\<open>borders\<close> metadata of the object's cell
  and sets to \<^verbatim>\<open>null\<close> the \<^verbatim>\<open>cellRange\<close> of the overlay entry found for its id.
\<close>

theorem C2_clear_keeps_store:
  "savedBorders (clearBorders None s) = savedBorders s \<and>
   heap (clearBorders None s) = heap s \<and>
   map settings (customSelections (clearBorders None s)) = map settings (customSelections s) \<and>
   (\<forall>border\<in>set (savedBorders s).
      cellMeta (clearBorders None s) (b_row (heap s border), b_col (heap s border)) = None \<and>
      (\<forall>index. overlayIndex s (b_id (heap s border)) = Some index \<longrightarrow>
         cellRange (customSelections (clearBorders None s) ! index) = None))"
  using fold_clearOne_done [of _ "savedBorders s" s] by (simp add: clearBorders_None)

theorem C2_clear_keeps_store_witness:
  "savedBorders (clearBorders None (after [SetBorders [Coords 1 1 1 1] (Some topOnly)])) = [0] \<and>
   cellMeta (clearBorders None (after [SetBorders [Coords 1 1 1 1] (Some topOnly)])) (1, 1) = None \<and>
   cellRange (customSelections
      (clearBorders None (after [SetBorders [Coords 1 1 1 1] (Some topOnly)])) ! 0) = None"
proof -
  let ?s = "after [SetBorders [Coords 1 1 1 1] (Some topOnly)]"
  have e: "savedBorders ?s = [0]" "b_row (heap ?s 0) = 1" "b_col (heap ?s 0) = 1"
    "overlayIndex ?s (b_id (heap ?s 0)) = Some 0"
    by code_simp+
  from C2_clear_keeps_store [of ?s] e show ?thesis by simp
qed

text \<open>
  C2, as stated, fails: after a border is set at the cell (1, 1), the no-argument
  \<^verbatim>\<open>clearBorders\<close> leaves the record in \<^verbatim>\<open>savedBorders\<close>.
\<close>

theorem C2_store_not_emptied:
  "savedBorders (clearBorders None (after [SetBorders [Coords 1 1 1 1] (Some topOnly)])) \<noteq> []"
  by code_simp

lemma spliceBorder_storeUnique: "storeUnique s \<Longrightarrow> storeUnique (spliceBorder X s)"
  by (simp add: spliceBorder_filter storeUnique_def distinct_map_filter)

text \<open>
  C9. On a well-formed state, \<^verbatim>\<open>spliceBorder\<close> twice is \<^verbatim>\<open>spliceBorder\<close> once, and it
  changes nothing when no stored object has the id; the no-argument \<^verbatim>\<open>clearBorders\<close>
  twice is the no-argument \<^verbatim>\<open>clearBorders\<close> once.
\<close>

theorem C9_removals_idempotent:
  assumes "wellFormed s"
  shows "spliceBorder X (spliceBorder X s) = spliceBorder X s \<and>
     ((\<forall>border\<in>set (savedBorders s). b_id (heap s border) \<noteq> X) \<longrightarrow> spliceBorder X s = s) \<and>
     clearBorders None (clearBorders None s) = clearBorders None s"
proof -
  from assms have u: "storeUnique s" by (simp add: wellFormed_def wfBase_def)
  have "spliceBorder X (spliceBorder X s) = spliceBorder X s"
    by (simp add: spliceBorder_filter [OF spliceBorder_storeUnique [OF u]])
      (simp add: spliceBorder_filter [OF u])
  moreover have "spliceBorder X s = s"
    if "\<forall>border\<in>set (savedBorders s). b_id (heap s border) \<noteq> X"
  proof -
    from that have "filter (\<lambda>b. b_id (heap s b) \<noteq> X) (savedBorders s) = savedBorders s"
      by (simp add: filter_id_conv)
    then show ?thesis by (simp add: spliceBorder_filter [OF u])
  qed
  moreover have "clearBorders None (clearBorders None s) = clearBorders None s"
    by (simp add: clearBorders_None fold_clearOne_idem)
  ultimately show ?thesis by blast
qed

theorem C9_removals_idempotent_witness:
  "wellFormed (after [SetBorders [Coords 1 1 1 1] (Some topOnly)]) \<and>
   spliceBorder (createId 1 1)
     (spliceBorder (createId 1 1) (after [SetBorders [Coords 1 1 1 1] (Some topOnly)])) =
     spliceBorder (createId 1 1) (after [SetBorders [Coords 1 1 1 1] (Some topOnly)]) \<and>
   spliceBorder (createId 2 2) (after [SetBorders [Coords 1 1 1 1] (Some topOnly)]) =
     after [SetBorders [Coords 1 1 1 1] (Some topOnly)] \<and>
   clearBorders None (clearBorders None (after [SetBorders [Coords 1 1 1 1] (Some topOnly)])) =
     clearBorders None (after [SetBorders [Coords 1 1 1 1] (Some topOnly)])"
proof -
  let ?s = "after [SetBorders [Coords 1 1 1 1] (Some topOnly)]"
  have w: "wellFormed ?s" by (rule after_wellFormed)
  have e: "savedBorders ?s = [0]" "b_id (heap ?s 0) \<noteq> createId 2 2"
    by code_simp+
  from C9_removals_idempotent [OF w, of "createId 1 1"]
    C9_removals_idempotent [OF w, of "createId 2 2"] e w
  show ?thesis by simp
qed

section \<open>Operations on one cell leave the other cells alone\<close>

lemma filter_splice: "i < length xs \<Longrightarrow> \<not> P (xs ! i) \<Longrightarrow> filter P (splice i xs) = filter P xs"
proof (induction xs arbitrary: i)
  case Nil
  then show ?case by simp
next
  case (Cons x xs)
  then show ?case by (cases i) simp_all
qed

lemma filter_update_irrelevant:
  "i < length xs \<Longrightarrow> \<not> P (xs ! i) \<Longrightarrow> \<not> P y \<Longrightarrow> filter P (xs[i := y]) = filter P xs"
proof (induction xs arbitrary: i)
  case Nil
  then show ?case by simp
next
  case (Cons x xs)
  then show ?case by (cases i) simp_all
qed

lemma sameElsewhere_refl: "sameElsewhere r c s s"
  by (simp add: sameElsewhere_def)

lemma sameElsewhere_trans:
  assumes "sameElsewhere r c s s1" "sameElsewhere r c s1 s2"
  shows "sameElsewhere r c s s2"
proof -
  from assms have n: "nextAddr s \<le> nextAddr s1" "nextAddr s1 \<le> nextAddr s2"
    by (simp_all add: sameElsewhere_def)
  have 1: "b_id (heap s2 a) = b_id (heap s a)" if "a < nextAddr s" for a
  proof -
    from that n have "a < nextAddr s1" by simp
    with assms that show ?thesis by (simp add: sameElsewhere_def)
  qed
  have 2: "heap s2 a = heap s a" if "a < nextAddr s" "b_id (heap s a) \<noteq> createId r c" for a
  proof -
    from that n have "a < nextAddr s1" by simp
    moreover from assms(1) that have "heap s1 a = heap s a" by (simp add: sameElsewhere_def)
    ultimately show ?thesis using assms(2) that by (simp add: sameElsewhere_def)
  qed
  have 3: "b_id (heap s2 a) = createId r c" if "a \<in> {nextAddr s..<nextAddr s2}" for a
  proof (cases "a < nextAddr s1")
    case True
    with that assms(1) have "b_id (heap s1 a) = createId r c" by (simp add: sameElsewhere_def)
    with True assms(2) show ?thesis by (simp add: sameElsewhere_def)
  next
    case False
    with that assms(2) show ?thesis by (simp add: sameElsewhere_def)
  qed
  have 4: "\<forall>k. k \<noteq> (r, c) \<longrightarrow> cellMeta s2 k = cellMeta s k"
    using assms unfolding sameElsewhere_def by simp
  have 5: "filter (\<lambda>a. b_id (heap s2 a) \<noteq> createId r c) (savedBorders s2) =
       filter (\<lambda>a. b_id (heap s a) \<noteq> createId r c) (savedBorders s)"
    using assms unfolding sameElsewhere_def by simp
  have 6: "filter (\<lambda>e. b_id (heap s2 (settings e)) \<noteq> createId r c \<and> cellRange e \<noteq> None)
         (customSelections s2) =
       filter (\<lambda>e. b_id (heap s (settings e)) \<noteq> createId r c \<and> cellRange e \<noteq> None)
         (customSelections s)"
    using assms unfolding sameElsewhere_def by simp
  from n 1 2 3 4 5 6 show ?thesis unfolding sameElsewhere_def by simp
qed

lemma spliceBorder_sameElsewhere: "sameElsewhere r c s (spliceBorder (createId r c) s)"
proof (cases "findIndex (\<lambda>a. b_id (heap s a) = createId r c) (savedBorders s)")
  case None
  then have "spliceBorder (createId r c) s = s"
    by (simp add: spliceBorder_def indexOf_map)
  then show ?thesis by (simp add: sameElsewhere_refl)
next
  case (Some i)
  then have "savedBorders (spliceBorder (createId r c) s) = splice i (savedBorders s)"
    by (simp add: spliceBorder_def indexOf_map)
  with findIndex_SomeD [OF Some] show ?thesis
    by (simp add: sameElsewhere_def filter_splice)
qed

lemma clearSel_sameElsewhere:
  "sameElsewhere r c s (clearBordersFromSelectionSettings (createId r c) s)"
proof (cases "overlayIndex s (createId r c)")
  case None
  then have "clearBordersFromSelectionSettings (createId r c) s = s"
    by (simp add: clearSel_clearAt clearAt_def)
  then show ?thesis by (simp add: sameElsewhere_refl)
next
  case (Some i)
  then have i: "i < length (customSelections s)"
      "b_id (heap s (settings (customSelections s ! i))) = createId r c"
    by (auto simp: overlayIndex_def indexOf_map dest: findIndex_SomeD)
  from Some have "customSelections (clearBordersFromSelectionSettings (createId r c) s) =
      (customSelections s)[i := (customSelections s ! i)\<lparr>cellRange := None\<rparr>]"
    by (simp add: clearSel_clearAt clearAt_def)
  with i show ?thesis
    by (simp add: sameElsewhere_def filter_update_irrelevant)
qed

lemma clearNull_sameElsewhere: "sameElsewhere r c s (clearNullCellRange s)"
proof (cases "findIndex (\<lambda>e. cellRange e = None) (customSelections s)")
  case None
  then have "clearNullCellRange s = s" by (simp add: clearNullCellRange_def)
  then show ?thesis by (simp add: sameElsewhere_refl)
next
  case (Some i)
  then have "customSelections (clearNullCellRange s) = splice i (customSelections s)"
    by (simp add: clearNullCellRange_def)
  with findIndex_SomeD [OF Some] show ?thesis
    by (simp add: sameElsewhere_def filter_splice)
qed

lemma removeCellMeta_sameElsewhere: "sameElsewhere r c s (removeCellMeta r c s)"
  by (simp add: sameElsewhere_def)

lemma setCellMeta_sameElsewhere: "sameElsewhere r c s (setCellMeta r c b s)"
  by (simp add: sameElsewhere_def)

lemma removeAllBorders_sameElsewhere: "sameElsewhere r c s (removeAllBorders r c s)"
  unfolding removeAllBorders_def Let_def
  by (rule sameElsewhere_trans [OF spliceBorder_sameElsewhere
        sameElsewhere_trans [OF clearSel_sameElsewhere
          sameElsewhere_trans [OF clearNull_sameElsewhere removeCellMeta_sameElsewhere]]])

lemma newObject_sameElsewhere:
  assumes "validAddrs s" "b_id obj = createId r c"
  shows "sameElsewhere r c s (snd (newObject obj s))"
proof -
  let ?s = "snd (newObject obj s)"
  have st: "filter (\<lambda>a. b_id (heap ?s a) \<noteq> createId r c) (savedBorders s) =
       filter (\<lambda>a. b_id (heap s a) \<noteq> createId r c) (savedBorders s)"
    using assms(1) by (intro filter_cong) (auto simp: validAddrs_def)
  have ov: "filter (\<lambda>e. b_id (heap ?s (settings e)) \<noteq> createId r c \<and> cellRange e \<noteq> None)
         (customSelections s) =
       filter (\<lambda>e. b_id (heap s (settings e)) \<noteq> createId r c \<and> cellRange e \<noteq> None)
         (customSelections s)"
    using assms(1) by (intro filter_cong) (auto simp: validAddrs_def)
  show ?thesis using assms(2) st ov
    by (auto simp: sameElsewhere_def)
qed

lemma setEdge_sameElsewhere:
  assumes "b_id (heap s b) = createId r c"
  shows "sameElsewhere r c s (setEdge b e v s)"
  using assms by (simp add: sameElsewhere_def del: setEdge_fields(1)) (auto simp: setEdge_def)

lemma storeStep_sameElsewhere:
  assumes "storeUnique s" "b_id (heap s b) = createId r c"
  shows "sameElsewhere r c s (storeStep b s)"
  using assms(1)
proof (cases rule: storeStep_cases [where b = b])
  case hidden
  with assms(2) show ?thesis by (simp add: sameElsewhere_def)
next
  case (replace i)
  with assms(2) show ?thesis by (simp add: sameElsewhere_def filter_update_irrelevant)
next
  case push
  with assms(2) show ?thesis by (simp add: sameElsewhere_def)
qed

lemma overlayStep_sameElsewhere:
  assumes "validAddrs s" "keysOk s" "b < nextAddr s" "b_id (heap s b) = createId r c"
  shows "sameElsewhere r c s (overlayStep b s)"
proof -
  note hp = overlayStep_heap [OF assms(1-3)]
  have ov: "filter (\<lambda>e. b_id (heap s (settings e)) \<noteq> createId r c \<and> cellRange e \<noteq> None)
         (customSelections (overlayStep b s)) =
       filter (\<lambda>e. b_id (heap s (settings e)) \<noteq> createId r c \<and> cellRange e \<noteq> None)
         (customSelections s)"
  proof (cases rule: overlayStep_cases [of s b])
    case (found i)
    with assms(4) show ?thesis by (simp add: filter_update_irrelevant)
  next
    case appended
    with assms(4) show ?thesis by simp
  qed
  show ?thesis using assms(4) ov by (simp add: sameElsewhere_def hp)
qed

lemma insertBorderIntoSettings_sameElsewhere:
  assumes "wellFormed s" "b < nextAddr s" "b_id (heap s b) = createId r c"
  shows "sameElsewhere r c s (insertBorderIntoSettings b s)"
proof -
  from assms(1) have u: "storeUnique s" by (simp add: wellFormed_def wfBase_def)
  from storeStep_wellFormed [OF assms(1,2)]
  have "validAddrs (storeStep b s)" "keysOk (storeStep b s)"
    by (simp_all add: wellFormed_def wfBase_def)
  then have "sameElsewhere r c (storeStep b s) (overlayStep b (storeStep b s))"
    using assms(2,3) by (intro overlayStep_sameElsewhere) simp_all
  with storeStep_sameElsewhere [OF u assms(3)] show ?thesis
    unfolding insertBorderIntoSettings_steps by (rule sameElsewhere_trans)
qed

lemma filter_restrict:
  assumes "\<And>x. P x \<Longrightarrow> Q x"
  shows "filter P xs = filter P (filter Q xs)"
  using assms by (induction xs) auto

lemma filter_unique:
  "distinct (map f xs) \<Longrightarrow> x \<in> set xs \<Longrightarrow> filter (\<lambda>y. f y = f x) xs = [x]"
proof (induction xs)
  case Nil
  then show ?case by simp
next
  case (Cons y ys)
  show ?case
  proof (cases "y = x")
    case True
    with Cons.prems(1) have "\<forall>z\<in>set ys. f z \<noteq> f x" by (auto intro: rev_image_eqI)
    then have "filter (\<lambda>y. f y = f x) ys = []" by (simp add: filter_empty_conv)
    with True show ?thesis by simp
  next
    case False
    with Cons.prems have x: "x \<in> set ys" by simp
    with Cons.prems(1) have "f y \<noteq> f x" by (auto intro: rev_image_eqI)
    with Cons.IH x Cons.prems(1) show ?thesis by simp
  qed
qed

lemma keysOk_coords:
  assumes "keysOk s" "a < nextAddr s"
  shows "b_row (heap s a) = r \<and> b_col (heap s a) = c \<longleftrightarrow> b_id (heap s a) = createId r c"
  using assms unfolding keysOk_def by (metis createId_inject)

lemma bordersAt_by_id:
  assumes "wfBase s"
  shows "bordersAt s r c =
     map (heap s) (filter (\<lambda>a. b_id (heap s a) = createId r c) (savedBorders s))"
proof -
  have "filter (\<lambda>a. b_row (heap s a) = r \<and> b_col (heap s a) = c) (savedBorders s) =
      filter (\<lambda>a. b_id (heap s a) = createId r c) (savedBorders s)"
    using assms
    by (intro filter_cong refl keysOk_coords) (auto simp: wfBase_def validAddrs_def)
  then show ?thesis by (simp add: bordersAt_def filter_map comp_def)
qed

text \<open>What is seen at a cell: its metadata, its stored objects, its live overlay entries.\<close>

lemma sameElsewhere_views:
  assumes se: "sameElsewhere r c s s'" and w: "wfBase s" and w': "wfBase s'"
    and ne: "(r', c') \<noteq> (r, c)"
  shows "metaAt s' r' c' = metaAt s r' c'"
    and "bordersAt s' r' c' = bordersAt s r' c'"
    and "liveAt s' r' c' = liveAt s r' c'"
proof -
  let ?X = "createId r c" and ?Y = "createId r' c'"
  from ne have XY: "?Y \<noteq> ?X" by simp
  from w have v: "validAddrs s" and k: "keysOk s" by (simp_all add: wfBase_def)
  have same: "heap s' a = heap s a" if "a < nextAddr s" "b_id (heap s a) = ?Y" for a
    using se that XY by (simp add: sameElsewhere_def)
  have ids: "b_id (heap s' a) = b_id (heap s a)" if "a < nextAddr s" for a
    using se that by (simp add: sameElsewhere_def)
  show "metaAt s' r' c' = metaAt s r' c'"
  proof (cases "cellMeta s (r', c')")
    case None
    with se ne show ?thesis by (simp add: metaAt_def sameElsewhere_def)
  next
    case (Some a)
    with v have a: "a < nextAddr s" by (simp add: validAddrs_def)
    from w Some have "b_row (heap s a) = r' \<and> b_col (heap s a) = c'"
      by (simp add: wfBase_def metaOk_def)
    with keysOk_coords [OF k a, of r' c'] have "b_id (heap s a) = ?Y" by blast
    with same a have "heap s' a = heap s a" by simp
    with se ne Some show ?thesis by (simp add: metaAt_def sameElsewhere_def)
  qed
  show "bordersAt s' r' c' = bordersAt s r' c'"
  proof -
    have "filter (\<lambda>a. b_id (heap s' a) = ?Y) (savedBorders s') =
        filter (\<lambda>a. b_id (heap s' a) = ?Y)
          (filter (\<lambda>a. b_id (heap s' a) \<noteq> ?X) (savedBorders s'))"
      using XY by (intro filter_restrict) auto
    also have "\<dots> = filter (\<lambda>a. b_id (heap s' a) = ?Y)
          (filter (\<lambda>a. b_id (heap s a) \<noteq> ?X) (savedBorders s))"
      using se by (simp add: sameElsewhere_def)
    also have "\<dots> = filter (\<lambda>a. b_id (heap s a) = ?Y)
          (filter (\<lambda>a. b_id (heap s a) \<noteq> ?X) (savedBorders s))"
      using v by (intro filter_cong refl) (auto simp: ids validAddrs_def)
    also have "\<dots> = filter (\<lambda>a. b_id (heap s a) = ?Y) (savedBorders s)"
      using XY by (intro filter_restrict [symmetric]) auto
    finally have eq: "filter (\<lambda>a. b_id (heap s' a) = ?Y) (savedBorders s') =
        filter (\<lambda>a. b_id (heap s a) = ?Y) (savedBorders s)" .
    have "map (heap s') (filter (\<lambda>a. b_id (heap s a) = ?Y) (savedBorders s)) =
        map (heap s) (filter (\<lambda>a. b_id (heap s a) = ?Y) (savedBorders s))"
      using v by (intro map_cong refl same) (auto simp: validAddrs_def)
    with eq show ?thesis by (simp add: bordersAt_by_id [OF w] bordersAt_by_id [OF w'])
  qed
  show "liveAt s' r' c' = liveAt s r' c'"
  proof -
    let ?P' = "\<lambda>e. b_id (heap s' (settings e)) = ?Y \<and> cellRange e \<noteq> None"
    let ?P = "\<lambda>e. b_id (heap s (settings e)) = ?Y \<and> cellRange e \<noteq> None"
    let ?Q' = "\<lambda>e. b_id (heap s' (settings e)) \<noteq> ?X \<and> cellRange e \<noteq> None"
    let ?Q = "\<lambda>e. b_id (heap s (settings e)) \<noteq> ?X \<and> cellRange e \<noteq> None"
    have "filter ?P' (customSelections s') = filter ?P' (filter ?Q' (customSelections s'))"
      using XY by (intro filter_restrict) auto
    also have "\<dots> = filter ?P' (filter ?Q (customSelections s))"
      using se by (simp add: sameElsewhere_def)
    also have "\<dots> = filter ?P (filter ?Q (customSelections s))"
      using v by (intro filter_cong refl) (auto simp: ids validAddrs_def)
    also have "\<dots> = filter ?P (customSelections s)"
      using XY by (intro filter_restrict [symmetric]) auto
    finally have eq: "filter ?P' (customSelections s') = filter ?P (customSelections s)" .
    have "map (\<lambda>e. heap s' (settings e)) (filter ?P (customSelections s)) =
        map (\<lambda>e. heap s (settings e)) (filter ?P (customSelections s))"
      using v by (intro map_cong refl same) (auto simp: validAddrs_def)
    with eq show ?thesis by (simp add: liveAt_def)
  qed
qed

subsection \<open>What the steps leave at their own cell\<close>

lemma removeAllBorders_atCell:
  assumes "wfBase s"
  shows "metaAt (removeAllBorders r c s) r c = None"
    and "bordersAt (removeAllBorders r c s) r c = []"
    and "liveAt (removeAllBorders r c s) r c = []"
proof -
  let ?X = "createId r c"
  from assms have u: "storeUnique s" and o: "overlayUnique s" by (simp_all add: wfBase_def)
  show "metaAt (removeAllBorders r c s) r c = None" by (simp add: metaAt_def)
  show "bordersAt (removeAllBorders r c s) r c = []"
    by (simp add: bordersAt_by_id [OF removeAllBorders_wfBase [OF assms]]
        removeAllBorders_store [OF u])
  let ?s2 = "clearBordersFromSelectionSettings ?X (spliceBorder ?X s)"
  have cleared: "cellRange e = None"
    if e: "e \<in> set (customSelections ?s2)" "b_id (heap s (settings e)) = ?X" for e
  proof -
    let ?cs = "customSelections s"
    from e(1) obtain j where j: "j < length ?cs" "e = customSelections ?s2 ! j"
      by (auto simp: in_set_conv_nth clearSel_clearAt)
    have st: "settings e = settings (?cs ! j)"
      using j clearSel_settings [of ?X "spliceBorder ?X s"]
      by (metis length_map nth_map spliceBorder_fields(3))
    have "overlayIndex s ?X = Some j"
    proof (cases "overlayIndex s ?X")
      case None
      then have "\<forall>x\<in>set ?cs. b_id (heap s (settings x)) \<noteq> ?X"
        by (simp add: overlayIndex_def indexOf_map findIndex_None_iff)
      with j(1) e(2) st show ?thesis by (metis nth_mem)
    next
      case (Some i)
      then have i: "i < length ?cs" "b_id (heap s (settings (?cs ! i))) = ?X"
        by (auto simp: overlayIndex_def indexOf_map dest: findIndex_SomeD)
      with e(2) st have "map (\<lambda>e. b_id (heap s (settings e))) ?cs ! j =
          map (\<lambda>e. b_id (heap s (settings e))) ?cs ! i"
        using j(1) by simp
      with o i(1) j(1) have "j = i"
        by (simp add: overlayUnique_def nth_eq_iff_index_eq del: nth_map)
      with Some show ?thesis by simp
    qed
    with j show ?thesis
      by (simp add: clearSel_clearAt overlayIndex_def clearAt_nth)
  qed
  have "set (customSelections (removeAllBorders r c s)) \<subseteq> set (customSelections ?s2)"
    unfolding removeAllBorders_def Let_def using clearNull_subset [of ?s2] by simp
  with cleared have "filter (\<lambda>e. b_id (heap s (settings e)) = ?X \<and> cellRange e \<noteq> None)
      (customSelections (removeAllBorders r c s)) = []"
    by (auto simp: filter_empty_conv)
  then show "liveAt (removeAllBorders r c s) r c = []" by (simp add: liveAt_def)
qed

lemma insertBorderIntoSettings_atCell:
  assumes w: "wellFormed s" and b: "b < nextAddr s" and i: "b_id (heap s b) = createId r c"
  shows "heap (insertBorderIntoSettings b s) b = heap s b"
    and "bordersAt (insertBorderIntoSettings b s) r c =
          (if countHide (heap s b) = 4 then [] else [heap s b])"
    and "liveAt (insertBorderIntoSettings b s) r c = [heap s b]"
proof -
  let ?s1 = "storeStep b s" and ?s' = "insertBorderIntoSettings b s"
  let ?X = "createId r c"
  from w have u: "storeUnique s" by (simp add: wellFormed_def wfBase_def)
  have w1: "wellFormed ?s1" by (rule storeStep_wellFormed [OF w b])
  then have v1: "validAddrs ?s1" and k1: "keysOk ?s1" by (simp_all add: wellFormed_def wfBase_def)
  have b1: "b < nextAddr ?s1" using b by simp
  note hp = overlayStep_heap [OF v1 k1 b1]
  have w': "wellFormed ?s'" by (rule insertBorderIntoSettings_wellFormed [OF w b])
  have s': "?s' = overlayStep b ?s1" by (rule insertBorderIntoSettings_steps)
  show hb: "heap ?s' b = heap s b" using hp(5) by (simp add: s')
  have ids: "b_id (heap ?s' a) = b_id (heap s a)" for a using hp(1) by (simp add: s')
  show "bordersAt ?s' r c = (if countHide (heap s b) = 4 then [] else [heap s b])"
  proof -
    have st: "savedBorders ?s' = savedBorders ?s1" by (simp add: s')
    have "filter (\<lambda>a. b_id (heap s a) = b_id (heap s b)) (savedBorders ?s1) =
        (if countHide (heap s b) = 4 then [] else [b])"
      using u
    proof (cases rule: storeStep_cases [where b = b])
      case hidden
      then show ?thesis by simp
    next
      case (replace k)
      then have "b \<in> set (savedBorders ?s1)" by (simp add: set_update_memI)
      moreover have "distinct (map (\<lambda>a. b_id (heap s a)) (savedBorders ?s1))"
        using storeStep_storeUnique [OF u, of b] by (simp add: storeUnique_def)
      ultimately show ?thesis
        using replace(1) filter_unique [of "\<lambda>a. b_id (heap s a)" "savedBorders ?s1" b]
        by simp
    next
      case push
      then have "filter (\<lambda>a. b_id (heap s a) = b_id (heap s b)) (savedBorders s) = []"
        by (simp add: filter_empty_conv)
      with push show ?thesis by simp
    qed
    then show ?thesis
      using w' hb by (simp add: bordersAt_by_id wellFormed_def ids st i)
  qed
  show "liveAt ?s' r c = [heap s b]"
  proof (cases rule: overlayStep_cases [of ?s1 b])
    case (found k)
    let ?e = "customSelections ?s' ! k"
    from found have len: "k < length (customSelections ?s')" by (simp add: s')
    then have mem: "?e \<in> set (customSelections ?s')" by simp
    from found have e: "settings ?e = settings (customSelections s ! k)" "cellRange ?e \<noteq> None"
      by (simp_all add: s')
    from found(2) e(1) have ide: "b_id (heap ?s' (settings ?e)) = ?X"
      by (simp add: ids i)
    from w' have "distinct (map (\<lambda>e. b_id (heap ?s' (settings e))) (customSelections ?s'))"
      by (simp add: wellFormed_def wfBase_def overlayUnique_def)
    from filter_unique [OF this mem] ide
    have "filter (\<lambda>e. b_id (heap ?s' (settings e)) = ?X) (customSelections ?s') = [?e]"
      by simp
    then have "filter (\<lambda>e. cellRange e \<noteq> None)
        (filter (\<lambda>e. b_id (heap ?s' (settings e)) = ?X) (customSelections ?s')) = [?e]"
      using e(2) by simp
    then have "filter (\<lambda>e. b_id (heap ?s' (settings e)) = ?X \<and> cellRange e \<noteq> None)
        (customSelections ?s') = [?e]"
      by simp
    moreover have "heap ?s' (settings ?e) = heap s b"
      using found(4) e(1) by (simp add: s')
    ultimately show ?thesis by (simp add: liveAt_def)
  next
    case appended
    then have "filter (\<lambda>e. b_id (heap s (settings e)) = ?X \<and> cellRange e \<noteq> None)
        (customSelections s) = []"
      by (simp add: filter_empty_conv i)
    with appended show ?thesis
      by (simp add: liveAt_def s' i)
  qed
qed

lemma wellFormed_wfBase: "wellFormed s \<Longrightarrow> wfBase s"
  by (simp add: wellFormed_def)

lemma sameElsewhere_cellView:
  assumes "sameElsewhere r c s s'" "wellFormed s" "wellFormed s'" "(r', c') \<noteq> (r, c)"
  shows "cellView s' r' c' = cellView s r' c'"
  using sameElsewhere_views [OF assms(1) wellFormed_wfBase [OF assms(2)]
      wellFormed_wfBase [OF assms(3)] assms(4)]
  by (simp add: cellView_def)

lemma prepareBorderFromCustomAdded_sameElsewhere:
  assumes "wellFormed s"
  shows "sameElsewhere r c s (prepareBorderFromCustomAdded r c spec s)"
proof -
  let ?obj = "extendDefaultBorder (createEmptyBorders r c) spec"
  let ?s1 = "snd (newObject ?obj s)"
  let ?s2 = "setCellMeta r c (nextAddr s) ?s1"
  have 1: "wellFormed ?s1" by (rule newObject_wellFormed [OF assms]) simp
  have 2: "wellFormed ?s2" by (rule setCellMeta_wellFormed [OF 1]) simp_all
  from assms have v: "validAddrs s" by (simp add: wellFormed_def wfBase_def)
  have a: "sameElsewhere r c s ?s1" by (rule newObject_sameElsewhere [OF v]) simp
  have b: "sameElsewhere r c ?s1 ?s2" by (rule setCellMeta_sameElsewhere)
  have c: "sameElsewhere r c ?s2 (insertBorderIntoSettings (nextAddr s) ?s2)"
    by (rule insertBorderIntoSettings_sameElsewhere [OF 2]) simp_all
  from sameElsewhere_trans [OF a sameElsewhere_trans [OF b c]] show ?thesis
    by (simp add: prepareBorderFromCustomAdded_def Let_def case_prod_beta)
qed

lemma prepareBorderFromCustomAdded_atCell:
  fixes r c :: int and spec :: border_spec
  assumes "wellFormed s"
  defines "R \<equiv> extendDefaultBorder (createEmptyBorders r c) spec"
  shows "cellView (prepareBorderFromCustomAdded r c spec s) r c =
     (Some R, if countHide R = 4 then [] else [R], [R])"
proof -
  let ?s1 = "snd (newObject R s)"
  let ?s2 = "setCellMeta r c (nextAddr s) ?s1"
  let ?s' = "insertBorderIntoSettings (nextAddr s) ?s2"
  have 1: "wellFormed ?s1" by (rule newObject_wellFormed [OF assms(1)]) (simp add: R_def)
  have 2: "wellFormed ?s2" by (rule setCellMeta_wellFormed [OF 1]) (simp_all add: R_def)
  have s': "prepareBorderFromCustomAdded r c spec s = ?s'"
    by (simp add: prepareBorderFromCustomAdded_def Let_def case_prod_beta R_def)
  have n: "nextAddr s < nextAddr ?s2" "b_id (heap ?s2 (nextAddr s)) = createId r c"
    "heap ?s2 (nextAddr s) = R"
    by (simp_all add: R_def)
  note at = insertBorderIntoSettings_atCell [OF 2 n(1,2)]
  have "cellMeta ?s' (r, c) = Some (nextAddr s)"
    by (simp add: insertBorderIntoSettings_steps)
  then have "metaAt ?s' r c = Some R" using at(1) n(3) by (simp add: metaAt_def)
  with at(2,3) n(3) show ?thesis by (simp add: cellView_def s')
qed

lemma prepareRangeCell_sameElsewhere:
  assumes "wellFormed s"
  shows "sameElsewhere r c s (prepareRangeCell rng spec r c s)"
proof -
  obtain obj add meta where rc: "rangeCellBorder rng spec r c = (obj, add, meta)"
    by (cases "rangeCellBorder rng spec r c") auto
  from rangeCellBorder_keys [of rng spec r c] rc
  have k: "b_id obj = createId r c" "b_row obj = r" "b_col obj = c" by simp_all
  let ?s1 = "snd (newObject obj s)"
  let ?s2 = "if meta then setCellMeta r c (nextAddr s) ?s1 else ?s1"
  have 1: "wellFormed ?s1" by (rule newObject_wellFormed [OF assms]) (simp add: k)
  have 2: "wellFormed ?s2"
    using 1 setCellMeta_wellFormed [OF 1, of "nextAddr s" r c] by (simp add: k)
  from assms have v: "validAddrs s" by (simp add: wellFormed_def wfBase_def)
  have a: "sameElsewhere r c s ?s1" by (rule newObject_sameElsewhere [OF v k(1)])
  have b: "sameElsewhere r c ?s1 ?s2"
    by (simp add: setCellMeta_sameElsewhere sameElsewhere_refl)
  have c: "sameElsewhere r c ?s2 (insertBorderIntoSettings (nextAddr s) ?s2)"
    by (rule insertBorderIntoSettings_sameElsewhere [OF 2]) (simp_all add: k)
  have ab: "sameElsewhere r c s ?s2" by (rule sameElsewhere_trans [OF a b])
  from ab sameElsewhere_trans [OF ab c] show ?thesis
    by (auto simp: prepareRangeCell_def rc Let_def case_prod_beta split: if_splits)
qed

lemma setBorder_start:
  assumes "wellFormed s"
  obtains bm s0 where
    "(case cellMeta s (r, c) of Some b \<Rightarrow> (b, s)
      | None \<Rightarrow> newObject (createEmptyBorders r c) s) = (bm, s0)"
    "wellFormed s0" "bm < nextAddr s0" "b_id (heap s0 bm) = createId r c"
    "b_row (heap s0 bm) = r" "b_col (heap s0 bm) = c"
    "heap s0 bm = bordersMetaOf s r c" "sameElsewhere r c s s0"
proof (cases "cellMeta s (r, c)")
  case None
  let ?s0 = "snd (newObject (createEmptyBorders r c) s)"
  from assms have v: "validAddrs s" by (simp add: wellFormed_def wfBase_def)
  show ?thesis
  proof (rule that [of "nextAddr s" ?s0])
    show "(case cellMeta s (r, c) of Some b \<Rightarrow> (b, s)
      | None \<Rightarrow> newObject (createEmptyBorders r c) s) = (nextAddr s, ?s0)"
      using None by (simp add: newObject_def)
    show "wellFormed ?s0" by (rule newObject_wellFormed [OF assms]) simp
    show "heap ?s0 (nextAddr s) = bordersMetaOf s r c" using None by (simp add: bordersMetaOf_def)
    show "sameElsewhere r c s ?s0" by (rule newObject_sameElsewhere [OF v]) simp
  qed simp_all
next
  case (Some b)
  show ?thesis
  proof (rule that [of b s])
    from Some assms show "b < nextAddr s"
      by (simp add: wellFormed_def wfBase_def validAddrs_def)
    from Some assms show rc: "b_row (heap s b) = r" "b_col (heap s b) = c"
      by (simp_all add: wellFormed_def wfBase_def metaOk_def)
    with assms \<open>b < nextAddr s\<close> show "b_id (heap s b) = createId r c"
      by (simp add: wellFormed_def wfBase_def keysOk_def)
  qed (simp_all add: Some assms bordersMetaOf_def sameElsewhere_refl)
qed

lemma finishBorder_props:
  assumes "wellFormed s1" "bm < nextAddr s1" "b_id (heap s1 bm) = createId r c"
    "b_row (heap s1 bm) = r" "b_col (heap s1 bm) = c"
  shows "wellFormed (finishBorder r c bm s1)"
    and "sameElsewhere r c s1 (finishBorder r c bm s1)"
    and "metaAt (finishBorder r c bm s1) r c = Some (heap s1 bm)"
proof -
  let ?s2 = "if \<not> checkCustomSelectionsFromContextMenu bm s1
             then insertBorderIntoSettings bm s1 else s1"
  have w: "wellFormed ?s2" using assms insertBorderIntoSettings_wellFormed by simp
  have h: "heap ?s2 bm = heap s1 bm"
    using insertBorderIntoSettings_atCell(1) [OF assms(1-3)] by simp
  have n: "nextAddr ?s2 = nextAddr s1" by (simp add: insertBorderIntoSettings_steps)
  show "wellFormed (finishBorder r c bm s1)"
    unfolding finishBorder_def using assms h n by (intro setCellMeta_wellFormed w) simp_all
  have "sameElsewhere r c s1 ?s2"
    using insertBorderIntoSettings_sameElsewhere [OF assms(1-3)] by (simp add: sameElsewhere_refl)
  then show "sameElsewhere r c s1 (finishBorder r c bm s1)"
    unfolding finishBorder_def by (rule sameElsewhere_trans [OF _ setCellMeta_sameElsewhere])
  show "metaAt (finishBorder r c bm s1) r c = Some (heap s1 bm)"
    using h by (simp add: finishBorder_def metaAt_def)
qed

lemma setBorder_effect:
  fixes r c :: int and e :: edge and rm :: bool and s :: state
  assumes "wellFormed s"
  defines "R \<equiv> assignEdge e (if rm then createSingleEmptyBorder else createDefaultCustomBorder)
                 (bordersMetaOf s r c)"
  shows "sameElsewhere r c s (setBorder r c e rm s)"
    and "metaAt (setBorder r c e rm s) r c = (if rm \<and> countHide R = 4 then None else Some R)"
    and "rm \<and> countHide R = 4 \<Longrightarrow>
           bordersAt (setBorder r c e rm s) r c = [] \<and> liveAt (setBorder r c e rm s) r c = []"
proof -
  obtain bm s0 where p: "(case cellMeta s (r, c) of Some b \<Rightarrow> (b, s)
      | None \<Rightarrow> newObject (createEmptyBorders r c) s) = (bm, s0)"
    and s0: "wellFormed s0" "bm < nextAddr s0" "b_id (heap s0 bm) = createId r c"
    "b_row (heap s0 bm) = r" "b_col (heap s0 bm) = c"
    and hb: "heap s0 bm = bordersMetaOf s r c" and se0: "sameElsewhere r c s s0"
    by (rule setBorder_start [OF assms(1), of r c])
  let ?v = "if rm then createSingleEmptyBorder else createDefaultCustomBorder"
  let ?s1 = "setEdge bm e ?v s0"
  have h1: "heap ?s1 bm = R" by (simp add: R_def hb)
  have se1: "sameElsewhere r c s ?s1"
    by (rule sameElsewhere_trans [OF se0 setEdge_sameElsewhere [OF s0(3)]])
  have k1: "bm < nextAddr ?s1" "b_id (heap ?s1 bm) = createId r c"
    "b_row (heap ?s1 bm) = r" "b_col (heap ?s1 bm) = c"
    using s0 by simp_all
  have "sameElsewhere r c s (setBorder r c e rm s) \<and>
    metaAt (setBorder r c e rm s) r c = (if rm \<and> countHide R = 4 then None else Some R) \<and>
    (rm \<and> countHide R = 4 \<longrightarrow>
           bordersAt (setBorder r c e rm s) r c = [] \<and> liveAt (setBorder r c e rm s) r c = [])"
  proof (cases "rm \<and> countHide R = 4")
    case True
    then have rm: "rm"
      and c4: "countHide (assignEdge e createSingleEmptyBorder (bordersMetaOf s r c)) = 4"
      by (auto simp: R_def)
    have sb: "setBorder r c e rm s = removeAllBorders r c ?s1"
      using rm c4 by (simp add: setBorder_def p Let_def hb)
    from s0(1) have b: "wfBase ?s1" by (simp add: wellFormed_def setEdge_wfBase)
    show ?thesis
      unfolding sb
      using removeAllBorders_atCell [OF b, of r c]
        sameElsewhere_trans [OF se1 removeAllBorders_sameElsewhere] True
      by simp
  next
    case False
    then have sb: "setBorder r c e rm s = finishBorder r c bm ?s1"
      using h1 by (cases rm) (auto simp: setBorder_def p Let_def finishBorder_def)
    have "countHide (assignEdge e ?v (heap s0 bm)) \<noteq> 4"
      using False by (cases rm) (simp_all add: R_def hb countHide_assign_default)
    then have w1: "wellFormed ?s1" using s0(1) by (rule setEdge_wellFormed [rotated])
    show ?thesis
      unfolding sb
      using finishBorder_props(2,3) [OF w1 k1] sameElsewhere_trans [OF se1] h1 False
      by auto
  qed
  then show "sameElsewhere r c s (setBorder r c e rm s)"
    and "metaAt (setBorder r c e rm s) r c = (if rm \<and> countHide R = 4 then None else Some R)"
    and "rm \<and> countHide R = 4 \<Longrightarrow>
           bordersAt (setBorder r c e rm s) r c = [] \<and> liveAt (setBorder r c e rm s) r c = []"
    by simp_all
qed

section \<open>Setting, reading and the context menu\<close>


lemma bordersMetaOf_metaAt:
  "bordersMetaOf s r c = (case metaAt s r c of Some R \<Rightarrow> R | None \<Rightarrow> createEmptyBorders r c)"
  by (simp add: bordersMetaOf_def metaAt_def split: option.splits)

lemma setBorders_point:
  "setBorders [Coords r c r c] (Some spec) s =
     prepareBorderFromCustomAdded r c spec (removeAllBorders r c s)"
  by (simp add: setBorders_def arrayEach_def)

text \<open>
  C5, as amended. On a well-formed state, \<^verbatim>\<open>setBorders([[r, c, r, c]], spec)\<close> followed by
  \<^verbatim>\<open>getBorders([[r, c, r, c]])\<close> returns exactly the record of the cell whose edges are
  those of \<open>spec\<close> merged over the defaults, provided that record has an edge that is
  not hidden; when all four edges are hidden nothing is stored, and the result is empty.
\<close>

theorem C5_set_then_get:
  assumes "wellFormed s"
  shows "getBorders [Coords r c r c] (setBorders [Coords r c r c] (Some spec) s) =
     (if countHide (extendDefaultBorder (createEmptyBorders r c) spec) = 4 then []
      else [extendDefaultBorder (createEmptyBorders r c) spec])"
proof -
  have "wellFormed (removeAllBorders r c s)" by (rule removeAllBorders_wellFormed [OF assms])
  from prepareBorderFromCustomAdded_atCell [OF this, of r c spec] show ?thesis
    by (simp add: setBorders_point getBorders_def cellView_def)
qed

theorem C5_set_then_get_witness:
  "wellFormed (after [PrepareBorder [selectedCell 1 1] (Edge Left) False]) \<and>
   getBorders [Coords 1 1 1 1]
     (setBorders [Coords 1 1 1 1] (Some topOnly)
        (after [PrepareBorder [selectedCell 1 1] (Edge Left) False])) =
     [extendDefaultBorder (createEmptyBorders 1 1) topOnly]"
proof -
  let ?s = "after [PrepareBorder [selectedCell 1 1] (Edge Left) False]"
  have w: "wellFormed ?s" by (rule after_wellFormed)
  have e: "countHide (extendDefaultBorder (createEmptyBorders 1 1) topOnly) \<noteq> 4"
    by code_simp
  from C5_set_then_get [OF w, of 1 1 topOnly] e w show ?thesis by simp
qed

text \<open>
  C5, as stated, fails for an edge specification with no visible edge: after
  \<^verbatim>\<open>setBorders([[1, 1, 1, 1]], {})\<close> on a new plugin, \<^verbatim>\<open>getBorders\<close> returns no record.
\<close>

theorem C5_empty_spec_returns_nothing:
  "getBorders [Coords 1 1 1 1] (setBorders [Coords 1 1 1 1] (Some emptySpec) initial) = []"
  by code_simp

lemma prepareBorder_point:
  "prepareBorder [selectedCell r c] (Edge e) rm s = setBorder r c e rm s"
  by (simp add: prepareBorder_def arrayEach_def selectedCell_def coords_def Let_def)


lemma rangeEach_fold: "rangeEach a b f = fold f [a..b]"
  by (rule ext) (simp add: rangeEach_def)



text \<open>
  C8. On a well-formed state in which the cell (1,1) has no metadata, adding
  \<^verbatim>\<open>'top'\<close>, adding \<^verbatim>\<open>'right'\<close>, removing \<^verbatim>\<open>'top'\<close> and removing \<^verbatim>\<open>'right'\<close> through
  \<^verbatim>\<open>prepareBorder\<close> leaves the cell with no metadata, no stored record and no live
  overlay entry. In general, when a removal makes all four edges of the cell's object
  hidden, the cell is left with no metadata, no stored record and no live overlay entry.
\<close>

theorem C8_eviction:
  assumes "wellFormed s"
  shows "(cellMeta s (1, 1) = None \<longrightarrow>
            cellView
              (prepareBorder [selectedCell 1 1] (Edge Right) True
                (prepareBorder [selectedCell 1 1] (Edge Top) True
                  (prepareBorder [selectedCell 1 1] (Edge Right) False
                    (prepareBorder [selectedCell 1 1] (Edge Top) False s)))) 1 1 =
              (None, [], [])) \<and>
         (countHide (assignEdge e createSingleEmptyBorder (bordersMetaOf s r c)) = 4 \<longrightarrow>
            cellView (prepareBorder [selectedCell r c] (Edge e) True s) r c = (None, [], []))"
proof (intro conjI impI)
  assume "countHide (assignEdge e createSingleEmptyBorder (bordersMetaOf s r c)) = 4"
  with setBorder_effect(2,3) [OF assms, where r = r and c = c and e = e and rm = True]
  show "cellView (prepareBorder [selectedCell r c] (Edge e) True s) r c = (None, [], [])"
    by (simp add: prepareBorder_point cellView_def)
next
  assume m: "cellMeta s (1, 1) = None"
  let ?s1 = "setBorder 1 1 Top False s"
  let ?s2 = "setBorder 1 1 Right False ?s1"
  let ?s3 = "setBorder 1 1 Top True ?s2"
  let ?s4 = "setBorder 1 1 Right True ?s3"
  have w1: "wellFormed ?s1" by (rule setBorder_wellFormed [OF assms])
  have w2: "wellFormed ?s2" by (rule setBorder_wellFormed [OF w1])
  have w3: "wellFormed ?s3" by (rule setBorder_wellFormed [OF w2])
  note e1 = setBorder_effect(2) [OF assms, where r = 1 and c = 1 and e = Top and rm = False]
  note e2 = setBorder_effect(2) [OF w1, where r = 1 and c = 1 and e = Right and rm = False]
  note e3 = setBorder_effect(2) [OF w2, where r = 1 and c = 1 and e = Top and rm = True]
  note e4 = setBorder_effect(2,3) [OF w3, where r = 1 and c = 1 and e = Right and rm = True]
  have b0: "bordersMetaOf s 1 1 = createEmptyBorders 1 1" using m by (simp add: bordersMetaOf_def)
  have m1: "metaAt ?s1 1 1 = Some (assignEdge Top createDefaultCustomBorder (createEmptyBorders 1 1))"
    using e1 by (simp add: b0)
  have m2: "metaAt ?s2 1 1 = Some (assignEdge Right createDefaultCustomBorder
      (assignEdge Top createDefaultCustomBorder (createEmptyBorders 1 1)))"
    using e2 by (simp add: bordersMetaOf_metaAt m1)
  have m3: "metaAt ?s3 1 1 = Some (assignEdge Top createSingleEmptyBorder
      (assignEdge Right createDefaultCustomBorder
        (assignEdge Top createDefaultCustomBorder (createEmptyBorders 1 1))))"
    using e3 by (simp add: bordersMetaOf_metaAt m2 countHide_4_iff assignEdge_def)
  have "countHide (assignEdge Right createSingleEmptyBorder (bordersMetaOf ?s3 1 1)) = 4"
    by (simp add: bordersMetaOf_metaAt m3 countHide_4_iff assignEdge_def createEmptyBorders_def)
  with e4 have "cellView ?s4 1 1 = (None, [], [])" by (simp add: cellView_def)
  then show "cellView
              (prepareBorder [selectedCell 1 1] (Edge Right) True
                (prepareBorder [selectedCell 1 1] (Edge Top) True
                  (prepareBorder [selectedCell 1 1] (Edge Right) False
                    (prepareBorder [selectedCell 1 1] (Edge Top) False s)))) 1 1 =
              (None, [], [])"
    by (simp add: prepareBorder_point)
qed

theorem C8_eviction_witness:
  "wellFormed initial \<and>
   cellView
     (prepareBorder [selectedCell 1 1] (Edge Right) True
       (prepareBorder [selectedCell 1 1] (Edge Top) True
         (prepareBorder [selectedCell 1 1] (Edge Right) False
           (prepareBorder [selectedCell 1 1] (Edge Top) False initial)))) 1 1 =
     (None, [], []) \<and>
   cellView (prepareBorder [selectedCell 1 1] (Edge Top) True
               (after [PrepareBorder [selectedCell 1 1] (Edge Top) False])) 1 1 =
     (None, [], [])"
proof -
  let ?s = "after [PrepareBorder [selectedCell 1 1] (Edge Top) False]"
  have w: "wellFormed ?s" by (rule after_wellFormed)
  have e: "cellMeta initial (1, 1) = None"
    "countHide (assignEdge Top createSingleEmptyBorder (bordersMetaOf ?s 1 1)) = 4"
    by code_simp+
  from C8_eviction [OF initial_wellFormed, of Top 1 1] C8_eviction [OF w, of Top 1 1] e
    initial_wellFormed
  show ?thesis by simp
qed

section \<open>The store and the overlay collection\<close>

lemma storeIds_minus:
  "storeIds s - {X} = (\<lambda>a. b_id (heap s a)) ` set (filter (\<lambda>a. b_id (heap s a) \<noteq> X) (savedBorders s))"
  by (auto simp: storeIds_def)

lemma liveIds_minus:
  "liveIds s - {X} =
     (\<lambda>e. b_id (heap s (settings e))) `
       set (filter (\<lambda>e. b_id (heap s (settings e)) \<noteq> X \<and> cellRange e \<noteq> None)
              (customSelections s))"
  by (auto simp: liveIds_def)

lemma sameElsewhere_ids:
  assumes se: "sameElsewhere r c s s'" and v: "validAddrs s"
  shows "storeIds s' - {createId r c} = storeIds s - {createId r c}"
    and "liveIds s' - {createId r c} = liveIds s - {createId r c}"
proof -
  let ?X = "createId r c"
  have ids: "b_id (heap s' a) = b_id (heap s a)" if "a < nextAddr s" for a
    using se that by (simp add: sameElsewhere_def)
  have "storeIds s' - {?X} =
      (\<lambda>a. b_id (heap s' a)) ` set (filter (\<lambda>a. b_id (heap s a) \<noteq> ?X) (savedBorders s))"
    using se by (simp add: storeIds_minus sameElsewhere_def)
  also have "\<dots> = (\<lambda>a. b_id (heap s a)) ` set (filter (\<lambda>a. b_id (heap s a) \<noteq> ?X) (savedBorders s))"
    using v by (intro image_cong refl ids) (auto simp: validAddrs_def)
  finally show "storeIds s' - {?X} = storeIds s - {?X}" by (simp add: storeIds_minus)
  have "liveIds s' - {?X} =
      (\<lambda>e. b_id (heap s' (settings e))) `
       set (filter (\<lambda>e. b_id (heap s (settings e)) \<noteq> ?X \<and> cellRange e \<noteq> None)
              (customSelections s))"
    using se by (simp add: liveIds_minus sameElsewhere_def)
  also have "\<dots> = (\<lambda>e. b_id (heap s (settings e))) `
       set (filter (\<lambda>e. b_id (heap s (settings e)) \<noteq> ?X \<and> cellRange e \<noteq> None)
              (customSelections s))"
    using v by (intro image_cong refl ids) (auto simp: validAddrs_def)
  finally show "liveIds s' - {?X} = liveIds s - {?X}" by (simp add: liveIds_minus)
qed

lemma synced_step:
  assumes "synced s" "sameElsewhere r c s s'" "wellFormed s'"
    "createId r c \<in> storeIds s' \<Longrightarrow> createId r c \<in> liveIds s'"
  shows "synced s'"
proof -
  from assms(1) have v: "validAddrs s" and sub: "storeIds s \<subseteq> liveIds s"
    by (simp_all add: synced_def wellFormed_def wfBase_def)
  note ids = sameElsewhere_ids [OF assms(2) v]
  have "storeIds s' \<subseteq> liveIds s'"
  proof
    fix X assume X: "X \<in> storeIds s'"
    show "X \<in> liveIds s'"
    proof (cases "X = createId r c")
      case True
      with X assms(4) show ?thesis by simp
    next
      case False
      with X have "X \<in> storeIds s' - {createId r c}" by simp
      with ids(1) sub have "X \<in> liveIds s - {createId r c}" by auto
      with ids(2) show ?thesis by auto
    qed
  qed
  with assms(3) show ?thesis by (simp add: synced_def)
qed

lemma liveAt_liveIds: "liveAt s r c \<noteq> [] \<Longrightarrow> createId r c \<in> liveIds s"
  by (force simp: liveAt_def liveIds_def filter_empty_conv)

lemma bordersAt_storeIds: "wfBase s \<Longrightarrow> bordersAt s r c = [] \<Longrightarrow> createId r c \<notin> storeIds s"
  by (auto simp: bordersAt_by_id storeIds_def filter_empty_conv)

lemma removeAllBorders_synced: "synced s \<Longrightarrow> synced (removeAllBorders r c s)"
proof (rule synced_step [where r = r and c = c])
  assume s: "synced s"
  then have w: "wellFormed s" by (simp add: synced_def)
  show "sameElsewhere r c s (removeAllBorders r c s)" by (rule removeAllBorders_sameElsewhere)
  show w': "wellFormed (removeAllBorders r c s)" by (rule removeAllBorders_wellFormed [OF w])
  assume "createId r c \<in> storeIds (removeAllBorders r c s)"
  with bordersAt_storeIds [OF wellFormed_wfBase [OF w']
      removeAllBorders_atCell(2) [OF wellFormed_wfBase [OF w]]]
  show "createId r c \<in> liveIds (removeAllBorders r c s)" by simp
qed

lemma prepareBorderFromCustomAdded_synced:
  "synced s \<Longrightarrow> synced (prepareBorderFromCustomAdded r c spec s)"
proof (rule synced_step [where r = r and c = c])
  assume s: "synced s"
  then have w: "wellFormed s" by (simp add: synced_def)
  show "sameElsewhere r c s (prepareBorderFromCustomAdded r c spec s)"
    by (rule prepareBorderFromCustomAdded_sameElsewhere [OF w])
  show "wellFormed (prepareBorderFromCustomAdded r c spec s)"
    by (rule prepareBorderFromCustomAdded_wellFormed [OF w])
  from prepareBorderFromCustomAdded_atCell [OF w, of r c spec]
  have "liveAt (prepareBorderFromCustomAdded r c spec s) r c \<noteq> []" by (simp add: cellView_def)
  then show "createId r c \<in> liveIds (prepareBorderFromCustomAdded r c spec s)"
    by (rule liveAt_liveIds)
qed

text \<open>Steps that change neither the two lists nor the id of an allocated object.\<close>

lemma ids_unchanged:
  assumes "validAddrs s" "savedBorders s' = savedBorders s"
    "customSelections s' = customSelections s"
    "\<And>a. a < nextAddr s \<Longrightarrow> b_id (heap s' a) = b_id (heap s a)"
  shows "storeIds s' = storeIds s" and "liveIds s' = liveIds s"
proof -
  have "map (\<lambda>a. b_id (heap s' a)) (savedBorders s) = map (\<lambda>a. b_id (heap s a)) (savedBorders s)"
    using assms(1) by (intro map_cong refl assms(4)) (auto simp: validAddrs_def)
  then show "storeIds s' = storeIds s" by (simp add: storeIds_def assms(2))
  have "map (\<lambda>e. b_id (heap s' (settings e)))
          (filter (\<lambda>e. cellRange e \<noteq> None) (customSelections s)) =
        map (\<lambda>e. b_id (heap s (settings e)))
          (filter (\<lambda>e. cellRange e \<noteq> None) (customSelections s))"
    using assms(1) by (intro map_cong refl assms(4)) (auto simp: validAddrs_def)
  then show "liveIds s' = liveIds s" by (simp add: liveIds_def assms(3))
qed

lemma prepareRangeCell_synced:
  assumes "synced s"
  shows "synced (prepareRangeCell rng spec r c s)"
proof (rule synced_step [OF assms, where r = r and c = c])
  from assms have w: "wellFormed s" and sub: "storeIds s \<subseteq> liveIds s"
    by (simp_all add: synced_def)
  then have v: "validAddrs s" by (simp add: wellFormed_def wfBase_def)
  show "sameElsewhere r c s (prepareRangeCell rng spec r c s)"
    by (rule prepareRangeCell_sameElsewhere [OF w])
  show "wellFormed (prepareRangeCell rng spec r c s)"
    by (rule prepareRangeCell_wellFormed [OF w])
  obtain obj add meta where rc: "rangeCellBorder rng spec r c = (obj, add, meta)"
    by (cases "rangeCellBorder rng spec r c") auto
  from rangeCellBorder_keys [of rng spec r c] rc
  have k: "b_id obj = createId r c" "b_row obj = r" "b_col obj = c" by simp_all
  let ?s1 = "snd (newObject obj s)"
  let ?s2 = "if meta then setCellMeta r c (nextAddr s) ?s1 else ?s1"
  have 1: "wellFormed ?s1" by (rule newObject_wellFormed [OF w]) (simp add: k)
  have 2: "wellFormed ?s2"
    using 1 setCellMeta_wellFormed [OF 1, of "nextAddr s" r c] by (simp add: k)
  assume X: "createId r c \<in> storeIds (prepareRangeCell rng spec r c s)"
  show "createId r c \<in> liveIds (prepareRangeCell rng spec r c s)"
  proof (cases "add > 0")
    case True
    then have s': "prepareRangeCell rng spec r c s = insertBorderIntoSettings (nextAddr s) ?s2"
      by (simp add: prepareRangeCell_def rc Let_def case_prod_beta)
    have "liveAt (insertBorderIntoSettings (nextAddr s) ?s2) r c \<noteq> []"
      using insertBorderIntoSettings_atCell(3) [OF 2, of "nextAddr s" r c] by (simp add: k)
    then show ?thesis unfolding s' by (rule liveAt_liveIds)
  next
    case False
    then have s': "prepareRangeCell rng spec r c s = ?s2"
      by (simp add: prepareRangeCell_def rc Let_def case_prod_beta)
    have "storeIds ?s2 = storeIds s" "liveIds ?s2 = liveIds s"
      by (rule ids_unchanged [OF v]; simp)+
    with X sub show ?thesis by (auto simp: s')
  qed
qed

lemma setBorder_synced:
  assumes "synced s"
  shows "synced (setBorder r c e rm s)"
proof (rule synced_step [OF assms, where r = r and c = c])
  from assms have w: "wellFormed s" and sub: "storeIds s \<subseteq> liveIds s"
    by (simp_all add: synced_def)
  then have v: "validAddrs s" by (simp add: wellFormed_def wfBase_def)
  show "sameElsewhere r c s (setBorder r c e rm s)" by (rule setBorder_effect(1) [OF w])
  show w': "wellFormed (setBorder r c e rm s)" by (rule setBorder_wellFormed [OF w])
  obtain bm s0 where p: "(case cellMeta s (r, c) of Some b \<Rightarrow> (b, s)
      | None \<Rightarrow> newObject (createEmptyBorders r c) s) = (bm, s0)"
    and s0: "wellFormed s0" "bm < nextAddr s0" "b_id (heap s0 bm) = createId r c"
    "b_row (heap s0 bm) = r" "b_col (heap s0 bm) = c"
    and hb: "heap s0 bm = bordersMetaOf s r c"
    by (rule setBorder_start [OF w, of r c])
  have s0_ids: "storeIds s0 = storeIds s \<and> liveIds s0 = liveIds s"
  proof (cases "cellMeta s (r, c)")
    case None
    with p have "s0 = snd (newObject (createEmptyBorders r c) s)" by simp
    with ids_unchanged [OF v, of "snd (newObject (createEmptyBorders r c) s)"]
    show ?thesis by simp
  next
    case (Some b)
    with p show ?thesis by simp
  qed
  let ?v = "if rm then createSingleEmptyBorder else createDefaultCustomBorder"
  let ?s1 = "setEdge bm e ?v s0"
  let ?R = "assignEdge e ?v (bordersMetaOf s r c)"
  from s0(1) have v0: "validAddrs s0" by (simp add: wellFormed_def wfBase_def)
  have s1_ids: "storeIds ?s1 = storeIds s" "liveIds ?s1 = liveIds s"
    using ids_unchanged [OF v0, of ?s1] s0_ids by simp_all
  assume X: "createId r c \<in> storeIds (setBorder r c e rm s)"
  show "createId r c \<in> liveIds (setBorder r c e rm s)"
  proof (cases "rm \<and> countHide ?R = 4")
    case True
    with setBorder_effect(3) [OF w, where r = r and c = c and e = e and rm = rm]
    have "bordersAt (setBorder r c e rm s) r c = []" by auto
    from bordersAt_storeIds [OF wellFormed_wfBase [OF w'] this] X show ?thesis by simp
  next
    case False
    then have sb: "setBorder r c e rm s = finishBorder r c bm ?s1"
      by (cases rm) (auto simp: setBorder_def p Let_def finishBorder_def hb)
    have "countHide (assignEdge e ?v (heap s0 bm)) \<noteq> 4"
      using False by (cases rm) (simp_all add: hb countHide_assign_default)
    then have w1: "wellFormed ?s1" using s0(1) by (rule setEdge_wellFormed [rotated])
    then have v1: "validAddrs ?s1" by (simp add: wellFormed_def wfBase_def)
    have k1: "bm < nextAddr ?s1" "b_id (heap ?s1 bm) = createId r c" using s0 by simp_all
    show ?thesis
    proof (cases "checkCustomSelectionsFromContextMenu bm ?s1")
      case True
      then have fb: "finishBorder r c bm ?s1 = setCellMeta r c bm ?s1"
        by (simp add: finishBorder_def)
      have "storeIds (setCellMeta r c bm ?s1) = storeIds ?s1"
          "liveIds (setCellMeta r c bm ?s1) = liveIds ?s1"
        by (rule ids_unchanged [OF v1]; simp)+
      with X sub s1_ids show ?thesis unfolding sb fb by auto
    next
      case False
      then have fb: "finishBorder r c bm ?s1 =
          setCellMeta r c bm (insertBorderIntoSettings bm ?s1)"
        by (simp add: finishBorder_def)
      let ?s2 = "insertBorderIntoSettings bm ?s1"
      have "wellFormed ?s2" by (rule insertBorderIntoSettings_wellFormed [OF w1 k1(1)])
      then have v2: "validAddrs ?s2" by (simp add: wellFormed_def wfBase_def)
      have "liveAt ?s2 r c \<noteq> []"
        using insertBorderIntoSettings_atCell(3) [OF w1 k1] by simp
      then have "createId r c \<in> liveIds ?s2" by (rule liveAt_liveIds)
      moreover have "liveIds (setCellMeta r c bm ?s2) = liveIds ?s2"
        by (rule ids_unchanged [OF v2]; simp)
      ultimately show ?thesis unfolding sb fb by simp
    qed
  qed
qed

lemma fold_synced:
  assumes "synced s" "\<And>x s. synced s \<Longrightarrow> synced (f x s)"
  shows "synced (fold f xs s)"
  using assms(1) by (induction xs arbitrary: s) (simp_all add: assms(2))

lemma initial_synced: "synced initial"
  by (simp add: synced_def initial_wellFormed) (simp add: storeIds_def initial_def)

lemma prepareBorderFromCustomAddedRange_synced:
  "synced s \<Longrightarrow> synced (prepareBorderFromCustomAddedRange d bo s)"
  unfolding prepareBorderFromCustomAddedRange_def rangeEach_def Let_def
  by (intro fold_synced prepareRangeCell_synced)

lemma setBorders_cell_synced:
  assumes w: "synced s0"
  shows "synced ((case cell of
            Handle h \<Rightarrow>
              (\<lambda>s0.
                 let topLeft = getTopLeftCorner h;
                     bottomRight = getBottomRightCorner h;
                     s1 = rangeEach (row topLeft) (row bottomRight)
                            (\<lambda>r. rangeEach (col topLeft) (col bottomRight)
                                   (\<lambda>column. removeAllBorders r column)) s0
                 in prepareBorderFromCustomAddedRange (PlainRange h) borderObject s1)
          | Coords startRow startColumn endRow endColumn \<Rightarrow>
              (\<lambda>s0.
                 if startRow = endRow \<and> startColumn = endColumn
                 then
                   (let s1 = removeAllBorders startRow startColumn s0
                    in prepareBorderFromCustomAdded startRow startColumn
                         (case borderObject of Some b \<Rightarrow> b | None \<Rightarrow> emptySpec) s1)
                 else
                   (let borderDescriptor =
                          \<lparr>range_from = \<lparr>row = startRow, col = startColumn\<rparr>,
                           range_to = \<lparr>row = endRow, col = endColumn\<rparr>\<rparr>;
                        s1 = fold (\<lambda>r. fold (\<lambda>c. removeAllBorders r c) [startColumn..endColumn])
                               [startRow..endRow] s0
                    in prepareBorderFromCustomAddedRange (PlainRange borderDescriptor)
                         borderObject s1))) s0)"
proof (cases cell)
  case (Handle h)
  show ?thesis unfolding Handle selection.case Let_def rangeEach_def
    by (intro prepareBorderFromCustomAddedRange_synced fold_synced
        removeAllBorders_synced w)
next
  case (Coords sr sc er ec)
  show ?thesis unfolding Coords selection.case Let_def
    by (auto intro!: prepareBorderFromCustomAddedRange_synced fold_synced
        removeAllBorders_synced prepareBorderFromCustomAdded_synced w)
qed

lemma setBorders_synced:
  assumes "synced s"
  shows "synced (setBorders selection borderObject s)"
  unfolding setBorders_def arrayEach_def
  by (rule fold_synced [OF assms]) (rule setBorders_cell_synced)

lemma prepareBorder_synced:
  assumes "synced s"
  shows "synced (prepareBorder selected place remove s)"
  unfolding prepareBorder_def arrayEach_def
proof (rule fold_synced [OF assms], goal_cases)
  case (1 sel s0)
  then show ?case
    unfolding Let_def rangeEach_def
    by (auto split: place.splits edge.splits
        intro!: fold_synced removeAllBorders_synced setBorder_synced)
qed

lemma createCustomBorders_synced:
  assumes "synced s"
  shows "synced (createCustomBorders customBorders s)"
  unfolding createCustomBorders_def arrayEach_def
proof (rule fold_synced [OF assms], goal_cases)
  case (1 x s0)
  then show ?case
    by (cases x)
      (simp_all add: prepareBorderFromCustomAddedRange_synced
        prepareBorderFromCustomAdded_synced)
qed

lemma run_synced:
  assumes "synced s" "op \<noteq> ClearBorders None"
  shows "synced (run op s)"
proof (cases op)
  case (ClearBorders selection)
  with assms(2) obtain sel where "selection = Some sel" by (cases selection) auto
  with ClearBorders assms(1) show ?thesis by (simp add: clearBorders_def setBorders_synced)
qed (simp_all add: assms(1) setBorders_synced prepareBorder_synced createCustomBorders_synced)

lemma after_synced: "ClearBorders None \<notin> set ops \<Longrightarrow> synced (fold run ops s) \<or> \<not> synced s"
proof (induction ops arbitrary: s)
  case Nil
  then show ?case by simp
next
  case (Cons op ops)
  show ?case
  proof (cases "synced s")
    case True
    with Cons.prems have "synced (run op s)" by (intro run_synced) auto
    with Cons.IH [of "run op s"] Cons.prems show ?thesis by simp
  next
    case False
    then show ?thesis by simp
  qed
qed

text \<open>
  C3, as amended. In every state reached from a new plugin by a sequence of public
  operations in which the no-argument \<^verbatim>\<open>clearBorders\<close> does not occur, every id present
  in \<^verbatim>\<open>savedBorders\<close> is the id of a live entry of \<^verbatim>\<open>customSelections\<close> (one whose
  \<^verbatim>\<open>cellRange\<close> is not \<^verbatim>\<open>null\<close>).
\<close>

theorem C3_store_ids_are_live:
  assumes "ClearBorders None \<notin> set ops"
  shows "storeIds (after ops) \<subseteq> liveIds (after ops)"
  using after_synced [OF assms, of initial] initial_synced
  by (simp add: after_def synced_def)

theorem C3_store_ids_are_live_witness:
  "ClearBorders None \<notin> set [SetBorders [Coords 1 1 1 1] (Some topOnly),
                               PrepareBorder [selectedCell 2 2] (Edge Left) False] \<and>
   createId 2 2 \<in> liveIds (after [SetBorders [Coords 1 1 1 1] (Some topOnly),
                                  PrepareBorder [selectedCell 2 2] (Edge Left) False])"
proof -
  let ?ops = "[SetBorders [Coords 1 1 1 1] (Some topOnly),
               PrepareBorder [selectedCell 2 2] (Edge Left) False]"
  have n: "ClearBorders None \<notin> set ?ops" by simp
  have e: "createId 2 2 \<in> storeIds (after ?ops)" by code_simp
  from C3_store_ids_are_live [OF n] e n show ?thesis by auto
qed

text \<open>
  C3, as stated, fails in both directions. \<^verbatim>\<open>setBorders([[1, 1, 1, 1]], {})\<close> creates a
  live overlay entry for an id that is not in the store. After a border is set, the
  no-argument \<^verbatim>\<open>clearBorders\<close> leaves the id in the store with no live overlay entry;
  and it stays so after a later edit of that cell from the context menu, which finds
  the cleared entry by its id and therefore inserts nothing.
\<close>

theorem C3_ids_diverge:
  "createId 1 1 \<in> liveIds (after [SetBorders [Coords 1 1 1 1] (Some emptySpec)]) \<and>
   createId 1 1 \<notin> storeIds (after [SetBorders [Coords 1 1 1 1] (Some emptySpec)]) \<and>
   createId 1 1 \<in> storeIds (after [SetBorders [Coords 1 1 1 1] (Some topOnly), ClearBorders None]) \<and>
   createId 1 1 \<notin> liveIds (after [SetBorders [Coords 1 1 1 1] (Some topOnly), ClearBorders None]) \<and>
   createId 1 1 \<in> storeIds (after [SetBorders [Coords 1 1 1 1] (Some topOnly), ClearBorders None,
      PrepareBorder [selectedCell 1 1] (Edge Left) False]) \<and>
   createId 1 1 \<notin> liveIds (after [SetBorders [Coords 1 1 1 1] (Some topOnly), ClearBorders None,
      PrepareBorder [selectedCell 1 1] (Edge Left) False])"
  by code_simp

section \<open>Zero-area selections\<close>

lemma emptySpec_iff:
  "spec = emptySpec \<longleftrightarrow>
     s_top spec = None \<and> s_right spec = None \<and> s_bottom spec = None \<and> s_left spec = None"
  by (cases spec) (auto simp: emptySpec_def)

lemma rangeCellBorder_zero_area:
  "rangeCellBorder (rangeOf r c r c) spec r c = (rawBorders r c spec, 4, spec \<noteq> emptySpec)"
  by (auto simp: rangeCellBorder_def rangeOf_def coords_def rawBorders_def createEmptyBorders_def
      emptySpec_iff Let_def split: option.splits)

lemma valueHide_mergeOverDefault [simp]: "valueHide (mergeOverDefault v) = valueHide v"
  by (auto simp: mergeOverDefault_def valueHide_def createDefaultCustomBorder_def
      split: edge_value.splits option.splits)

lemma setBorders_handle_single:
  "setBorders [Handle (rangeOf r c r c)] (Some spec) s =
     prepareRangeCell (rangeOf r c r c) spec r c (removeAllBorders r c s)"
  by (simp add: setBorders_def arrayEach_def rangeEach_def getTopLeftCorner_def
      getBottomRightCorner_def rangeOf_def coords_def prepareBorderFromCustomAddedRange_def
      Let_def)

lemma prepareRangeCell_zero_area:
  assumes "wellFormed s" and none: "cellMeta s (r, c) = None"
  shows "cellView (prepareRangeCell (rangeOf r c r c) spec r c s) r c =
      (if spec = emptySpec then None else Some (rawBorders r c spec),
       if countHide (rawBorders r c spec) = 4 then [] else [rawBorders r c spec],
       [rawBorders r c spec])"
proof -
  let ?obj = "rawBorders r c spec"
  have k: "b_id ?obj = createId r c" "b_row ?obj = r" "b_col ?obj = c"
    by (simp_all add: rawBorders_def)
  let ?s1 = "snd (newObject ?obj s)"
  let ?s2 = "if spec \<noteq> emptySpec then setCellMeta r c (nextAddr s) ?s1 else ?s1"
  let ?s' = "insertBorderIntoSettings (nextAddr s) ?s2"
  have 1: "wellFormed ?s1" by (rule newObject_wellFormed [OF assms(1)]) (simp add: k)
  have 2: "wellFormed ?s2"
  proof (cases "spec = emptySpec")
    case True
    with 1 show ?thesis by simp
  next
    case False
    with setCellMeta_wellFormed [OF 1, of "nextAddr s" r c] show ?thesis by (simp add: k)
  qed
  have s': "prepareRangeCell (rangeOf r c r c) spec r c s = ?s'"
    by (simp add: prepareRangeCell_def rangeCellBorder_zero_area Let_def case_prod_beta)
  have n: "nextAddr s < nextAddr ?s2" "b_id (heap ?s2 (nextAddr s)) = createId r c"
    "heap ?s2 (nextAddr s) = ?obj"
    by (auto simp: rawBorders_def)
  note at = insertBorderIntoSettings_atCell [OF 2 n(1,2)]
  have m: "metaAt ?s' r c = (if spec = emptySpec then None else Some ?obj)"
  proof (cases "spec = emptySpec")
    case True
    then have "cellMeta ?s' (r, c) = None"
      using none by (simp add: insertBorderIntoSettings_steps)
    with True show ?thesis by (simp add: metaAt_def)
  next
    case False
    then have "cellMeta ?s' (r, c) = Some (nextAddr s)"
      by (simp add: insertBorderIntoSettings_steps)
    with at(1) n(3) False show ?thesis by (simp add: metaAt_def)
  qed
  from m at(2,3) n(3) show ?thesis unfolding s' by (simp add: cellView_def)
qed

lemma zero_area_same_state:
  assumes "spec \<noteq> emptySpec"
    and "extendDefaultBorder (createEmptyBorders r c) spec = rawBorders r c spec"
  shows "setBorders [Handle (rangeOf r c r c)] (Some spec) s =
         setBorders [Coords r c r c] (Some spec) s"
  using assms
  by (simp add: setBorders_handle_single setBorders_point prepareRangeCell_def
      rangeCellBorder_zero_area prepareBorderFromCustomAdded_def Let_def case_prod_beta)

lemma removeAllBorders_meta: "cellMeta (removeAllBorders r c s) (r, c) = None"
  by simp

text \<open>
  C4, as amended. On a well-formed state, \<^verbatim>\<open>setBorders\<close> with the array \<^verbatim>\<open>[r, c, r, c]\<close> is
  the point case: the cell gets the record that \<^verbatim>\<open>extendDefaultBorder\<close> builds from the
  empty record and the caller's edge styles, and its metadata is always written. With
  an object handle whose two ends are the cell \<open>(r, c)\<close> it goes through the range path:
  only that cell is affected as well, but the record is the empty record with each
  edge the caller gives assigned as it is, without \<^verbatim>\<open>extendDefaultBorder\<close>, and the metadata
  is written only when the caller gives at least one edge. The two forms lead to the
  same state whenever the caller gives at least one edge and \<^verbatim>\<open>extendDefaultBorder\<close>
  yields the caller's edge values unchanged.
\<close>

theorem C4_zero_area_selection:
  assumes "wellFormed s"
  shows "cellView (setBorders [Coords r c r c] (Some spec) s) r c =
           (Some (extendDefaultBorder (createEmptyBorders r c) spec),
            if countHide (extendDefaultBorder (createEmptyBorders r c) spec) = 4 then []
            else [extendDefaultBorder (createEmptyBorders r c) spec],
            [extendDefaultBorder (createEmptyBorders r c) spec]) \<and>
         cellView (setBorders [Handle (rangeOf r c r c)] (Some spec) s) r c =
           (if spec = emptySpec then None else Some (rawBorders r c spec),
            if countHide (rawBorders r c spec) = 4 then [] else [rawBorders r c spec],
            [rawBorders r c spec]) \<and>
         (\<forall>r' c'. (r', c') \<noteq> (r, c) \<longrightarrow>
            cellView (setBorders [Coords r c r c] (Some spec) s) r' c' = cellView s r' c' \<and>
            cellView (setBorders [Handle (rangeOf r c r c)] (Some spec) s) r' c' =
              cellView s r' c') \<and>
         (spec \<noteq> emptySpec \<and>
          extendDefaultBorder (createEmptyBorders r c) spec = rawBorders r c spec \<longrightarrow>
            setBorders [Handle (rangeOf r c r c)] (Some spec) s =
            setBorders [Coords r c r c] (Some spec) s)"
proof -
  let ?s1 = "removeAllBorders r c s"
  have w1: "wellFormed ?s1" by (rule removeAllBorders_wellFormed [OF assms])
  have se1: "sameElsewhere r c s ?s1" by (rule removeAllBorders_sameElsewhere)
  have a: "cellView (setBorders [Coords r c r c] (Some spec) s) r c =
           (Some (extendDefaultBorder (createEmptyBorders r c) spec),
            if countHide (extendDefaultBorder (createEmptyBorders r c) spec) = 4 then []
            else [extendDefaultBorder (createEmptyBorders r c) spec],
            [extendDefaultBorder (createEmptyBorders r c) spec])"
    using prepareBorderFromCustomAdded_atCell [OF w1, of r c spec]
    by (simp add: setBorders_point)
  have b: "cellView (setBorders [Handle (rangeOf r c r c)] (Some spec) s) r c =
           (if spec = emptySpec then None else Some (rawBorders r c spec),
            if countHide (rawBorders r c spec) = 4 then [] else [rawBorders r c spec],
            [rawBorders r c spec])"
    using prepareRangeCell_zero_area [OF w1 removeAllBorders_meta, of spec]
    by (simp add: setBorders_handle_single)
  have d: "cellView (setBorders [Coords r c r c] (Some spec) s) r' c' = cellView s r' c' \<and>
      cellView (setBorders [Handle (rangeOf r c r c)] (Some spec) s) r' c' = cellView s r' c'"
    if ne: "(r', c') \<noteq> (r, c)" for r' c'
  proof
    have "sameElsewhere r c s (prepareBorderFromCustomAdded r c spec ?s1)"
      by (rule sameElsewhere_trans [OF se1 prepareBorderFromCustomAdded_sameElsewhere [OF w1]])
    from sameElsewhere_cellView [OF this assms prepareBorderFromCustomAdded_wellFormed [OF w1] ne]
    show "cellView (setBorders [Coords r c r c] (Some spec) s) r' c' = cellView s r' c'"
      by (simp add: setBorders_point)
    have "sameElsewhere r c s (prepareRangeCell (rangeOf r c r c) spec r c ?s1)"
      by (rule sameElsewhere_trans [OF se1 prepareRangeCell_sameElsewhere [OF w1]])
    from sameElsewhere_cellView [OF this assms prepareRangeCell_wellFormed [OF w1] ne]
    show "cellView (setBorders [Handle (rangeOf r c r c)] (Some spec) s) r' c' = cellView s r' c'"
      by (simp add: setBorders_handle_single)
  qed
  have e: "setBorders [Handle (rangeOf r c r c)] (Some spec) s =
      setBorders [Coords r c r c] (Some spec) s"
    if "spec \<noteq> emptySpec"
      "extendDefaultBorder (createEmptyBorders r c) spec = rawBorders r c spec"
    using that by (rule zero_area_same_state)
  from a b d e show ?thesis by blast
qed

theorem C4_zero_area_selection_witness:
  "wellFormed (after [PrepareBorder [selectedCell 1 1] (Edge Left) False]) \<and>
   cellView (setBorders [Handle (rangeOf 1 1 1 1)] (Some topDefault)
      (after [PrepareBorder [selectedCell 1 1] (Edge Left) False])) 1 1 =
     (Some (rawBorders 1 1 topDefault), [rawBorders 1 1 topDefault],
      [rawBorders 1 1 topDefault]) \<and>
   cellView (setBorders [Handle (rangeOf 1 1 1 1)] (Some topDefault)
      (after [PrepareBorder [selectedCell 1 1] (Edge Left) False])) 2 2 =
     cellView (after [PrepareBorder [selectedCell 1 1] (Edge Left) False]) 2 2 \<and>
   setBorders [Handle (rangeOf 1 1 1 1)] (Some topDefault)
      (after [PrepareBorder [selectedCell 1 1] (Edge Left) False]) =
   setBorders [Coords 1 1 1 1] (Some topDefault)
      (after [PrepareBorder [selectedCell 1 1] (Edge Left) False])"
proof -
  let ?s = "after [PrepareBorder [selectedCell 1 1] (Edge Left) False]"
  have w: "wellFormed ?s" by (rule after_wellFormed)
  have e: "countHide (rawBorders 1 1 topDefault) \<noteq> 4" "topDefault \<noteq> emptySpec"
    "extendDefaultBorder (createEmptyBorders 1 1) topDefault = rawBorders 1 1 topDefault"
    by code_simp+
  from C4_zero_area_selection [OF w, of 1 1 topDefault] e w show ?thesis
    by simp
qed

text \<open>
  C4, as stated, fails for an object handle: for the object \<^verbatim>\<open>{}\<close> at the cell (1,1) of a
  new plugin, the point case writes the empty record into the metadata of the cell,
  and the handle leaves the cell without metadata.
\<close>

theorem C4_handle_writes_no_metadata:
  "metaAt (setBorders [Handle (rangeOf 1 1 1 1)] (Some emptySpec) initial) 1 1 = None \<and>
   metaAt (setBorders [Coords 1 1 1 1] (Some emptySpec) initial) 1 1 =
     Some (createEmptyBorders 1 1)"
  by code_simp

section \<open>Disabling and updating the plugin\<close>

lemma countHide_reapplied [simp]: "countHide (reapplied b) = countHide b"
  by (simp add: reapplied_def countHide_def extendDefaultBorder_def specOfRecord_def)

lemma distinct_map_nth_drop:
  assumes "distinct (map f xs)" "i < length xs"
  shows "f (xs ! i) \<notin> f ` set (drop (Suc i) xs)"
proof -
  have "xs = take i xs @ xs ! i # drop (Suc i) xs"
    using assms(2) by (rule id_take_nth_drop)
  then have "distinct (map f (take i xs @ xs ! i # drop (Suc i) xs))"
    using assms(1) by simp
  then show ?thesis by simp
qed

lemma prepareBorderFromCustomAdded_store:
  assumes w: "wellFormed s" and i: "i < length (savedBorders s)"
    and X: "b_id (heap s (savedBorders s ! i)) = createId r c"
    and c4: "countHide (extendDefaultBorder (createEmptyBorders r c) spec) \<noteq> 4"
  shows "savedBorders (prepareBorderFromCustomAdded r c spec s) =
     (savedBorders s)[i := nextAddr s]"
proof -
  let ?obj = "extendDefaultBorder (createEmptyBorders r c) spec"
  let ?s1 = "snd (newObject ?obj s)"
  let ?s2 = "setCellMeta r c (nextAddr s) ?s1"
  let ?b = "nextAddr s"
  have 1: "wellFormed ?s1" by (rule newObject_wellFormed [OF w]) simp
  have 2: "wellFormed ?s2" by (rule setCellMeta_wellFormed [OF 1]) simp_all
  then have u: "storeUnique ?s2" by (simp add: wellFormed_def wfBase_def)
  from w have v: "validAddrs s" by (simp add: wellFormed_def wfBase_def)
  have old: "heap ?s2 a = heap s a" if "a \<in> set (savedBorders s)" for a
    using v that by (auto simp: validAddrs_def)
  have s': "savedBorders (prepareBorderFromCustomAdded r c spec s) =
      savedBorders (storeStep ?b ?s2)"
    by (simp add: prepareBorderFromCustomAdded_def Let_def case_prod_beta
        insertBorderIntoSettings_steps)
  have mem: "savedBorders s ! i \<in> set (savedBorders s)" using i by simp
  show ?thesis using u
  proof (cases rule: storeStep_cases [where b = ?b])
    case hidden
    with c4 show ?thesis by simp
  next
    case (replace k)
    then have k: "k < length (savedBorders s)"
      "b_id (heap s (savedBorders s ! k)) = createId r c"
      using old [of "savedBorders s ! k"] by simp_all
    with X i have "map (\<lambda>a. b_id (heap s a)) (savedBorders s) ! k =
        map (\<lambda>a. b_id (heap s a)) (savedBorders s) ! i"
      by simp
    moreover from w have "distinct (map (\<lambda>a. b_id (heap s a)) (savedBorders s))"
      by (simp add: wellFormed_def wfBase_def storeUnique_def)
    ultimately have "k = i" using k(1) i by (simp add: nth_eq_iff_index_eq del: nth_map)
    with replace(4) show ?thesis by (simp add: s')
  next
    case push
    with mem old [OF mem] X show ?thesis by auto
  qed
qed

lemma createCustomBordersSaved_reapplies:
  assumes "wellFormed s" "i + n = length (savedBorders s)"
  shows "\<exists>s'. createCustomBordersSaved n i s = Some s' \<and> wellFormed s' \<and>
     (\<forall>b\<in>set (drop i (savedBorders s)).
        cellView s' (b_row (heap s b)) (b_col (heap s b)) =
          (Some (reapplied (heap s b)), [reapplied (heap s b)], [reapplied (heap s b)])) \<and>
     (\<forall>r c. createId r c \<notin> (\<lambda>b. b_id (heap s b)) ` set (drop i (savedBorders s)) \<longrightarrow>
        cellView s' r c = cellView s r c)"
  using assms
proof (induction n arbitrary: i s)
  case 0
  then show ?case by simp
next
  case (Suc n)
  let ?xs = "savedBorders s"
  let ?b = "?xs ! i"
  let ?O = "heap s ?b"
  let ?r = "b_row ?O" and ?c = "b_col ?O"
  let ?s1 = "prepareBorderFromCustomAdded ?r ?c (specOfRecord ?O) s"
  from Suc.prems have i: "i < length ?xs" by simp
  then have mem: "?b \<in> set ?xs" by simp
  from Suc.prems(1) have v: "validAddrs s" and k: "keysOk s" and u: "storeUnique s"
    and nh: "noHidden s"
    by (simp_all add: wellFormed_def wfBase_def)
  from v mem have bv: "?b < nextAddr s" by (simp add: validAddrs_def)
  with k have X: "b_id ?O = createId ?r ?c" by (simp add: keysOk_def)
  from nh mem have c4: "countHide ?O \<noteq> 4" by (simp add: noHidden_def)
  then have c4': "countHide (extendDefaultBorder (createEmptyBorders ?r ?c) (specOfRecord ?O)) \<noteq> 4"
    using countHide_reapplied [of ?O] by (simp add: reapplied_def)
  have w1: "wellFormed ?s1" by (rule prepareBorderFromCustomAdded_wellFormed [OF Suc.prems(1)])
  have se: "sameElsewhere ?r ?c s ?s1"
    by (rule prepareBorderFromCustomAdded_sameElsewhere [OF Suc.prems(1)])
  have st: "savedBorders ?s1 = ?xs[i := nextAddr s]"
    by (rule prepareBorderFromCustomAdded_store [OF Suc.prems(1) i X c4'])
  have at: "cellView ?s1 ?r ?c = (Some (reapplied ?O), [reapplied ?O], [reapplied ?O])"
    using prepareBorderFromCustomAdded_atCell [OF Suc.prems(1), of ?r ?c "specOfRecord ?O"] c4'
    by (simp add: reapplied_def)
  have dr: "drop (Suc i) (savedBorders ?s1) = drop (Suc i) ?xs" by (simp add: st)
  have notin: "createId ?r ?c \<notin> (\<lambda>b. b_id (heap s b)) ` set (drop (Suc i) ?xs)"
    using distinct_map_nth_drop [of "\<lambda>b. b_id (heap s b)" ?xs i] u i X
    by (simp add: storeUnique_def)
  have rest: "heap ?s1 b = heap s b" if "b \<in> set (drop (Suc i) ?xs)" for b
  proof -
    from that have "b \<in> set ?xs" by (rule in_set_dropD)
    with v have "b < nextAddr s" by (simp add: validAddrs_def)
    moreover from that notin have "b_id (heap s b) \<noteq> createId ?r ?c"
      by (auto intro: rev_image_eqI)
    ultimately show ?thesis using se by (simp add: sameElsewhere_def)
  qed
  have len: "Suc i + n = length (savedBorders ?s1)" using Suc.prems(2) by (simp add: st)
  from Suc.IH [OF w1 len] obtain s' where
    run: "createCustomBordersSaved n (Suc i) ?s1 = Some s'" and w': "wellFormed s'"
    and dn: "\<forall>b\<in>set (drop (Suc i) (savedBorders ?s1)).
        cellView s' (b_row (heap ?s1 b)) (b_col (heap ?s1 b)) =
          (Some (reapplied (heap ?s1 b)), [reapplied (heap ?s1 b)], [reapplied (heap ?s1 b)])"
    and frame: "\<forall>r c. createId r c \<notin>
          (\<lambda>b. b_id (heap ?s1 b)) ` set (drop (Suc i) (savedBorders ?s1)) \<longrightarrow>
        cellView s' r c = cellView ?s1 r c"
    by blast
  have img: "(\<lambda>b. b_id (heap ?s1 b)) ` set (drop (Suc i) ?xs) =
      (\<lambda>b. b_id (heap s b)) ` set (drop (Suc i) ?xs)"
    by (rule image_cong [OF refl]) (simp add: rest)
  have dri: "drop i ?xs = ?b # drop (Suc i) ?xs" using i by (simp add: Cons_nth_drop_Suc)
  have "createCustomBordersSaved (Suc n) i s = Some s'"
    using i run by (simp add: Let_def)
  moreover have "\<forall>b\<in>set (drop i ?xs).
        cellView s' (b_row (heap s b)) (b_col (heap s b)) =
          (Some (reapplied (heap s b)), [reapplied (heap s b)], [reapplied (heap s b)])"
  proof
    fix b assume "b \<in> set (drop i ?xs)"
    then consider "b = ?b" | "b \<in> set (drop (Suc i) ?xs)" by (auto simp: dri)
    then show "cellView s' (b_row (heap s b)) (b_col (heap s b)) =
          (Some (reapplied (heap s b)), [reapplied (heap s b)], [reapplied (heap s b)])"
    proof cases
      case 1
      from frame notin have "cellView s' ?r ?c = cellView ?s1 ?r ?c" by (simp add: dr img)
      with at 1 show ?thesis by simp
    next
      case 2
      with dn have "cellView s' (b_row (heap ?s1 b)) (b_col (heap ?s1 b)) =
          (Some (reapplied (heap ?s1 b)), [reapplied (heap ?s1 b)], [reapplied (heap ?s1 b)])"
        unfolding dr by (rule bspec)
      then show ?thesis by (simp only: rest [OF 2])
    qed
  qed
  moreover have "\<forall>r c. createId r c \<notin> (\<lambda>b. b_id (heap s b)) ` set (drop i ?xs) \<longrightarrow>
        cellView s' r c = cellView s r c"
  proof (intro allI impI)
    fix r c assume n: "createId r c \<notin> (\<lambda>b. b_id (heap s b)) ` set (drop i ?xs)"
    then have ne: "(r, c) \<noteq> (?r, ?c)" using X by (auto simp: dri)
    from n have "createId r c \<notin> (\<lambda>b. b_id (heap s b)) ` set (drop (Suc i) ?xs)"
      by (auto simp: dri)
    with frame have "cellView s' r c = cellView ?s1 r c" by (simp add: dr img)
    also have "\<dots> = cellView s r c"
      by (rule sameElsewhere_cellView [OF se Suc.prems(1) w1 ne])
    finally show "cellView s' r c = cellView s r c" .
  qed
  ultimately show ?case using w' by blast
qed

lemma overlayIndex_unique:
  assumes "overlayUnique s" "j < length (customSelections s)"
    "b_id (heap s (settings (customSelections s ! j))) = X"
  shows "overlayIndex s X = Some j"
proof (cases "overlayIndex s X")
  case None
  then have "\<forall>x\<in>set (customSelections s). b_id (heap s (settings x)) \<noteq> X"
    by (simp add: overlayIndex_def indexOf_map findIndex_None_iff)
  with assms(2,3) show ?thesis by (metis nth_mem)
next
  case (Some i)
  then have i: "i < length (customSelections s)"
    "b_id (heap s (settings (customSelections s ! i))) = X"
    by (auto simp: overlayIndex_def indexOf_map dest: findIndex_SomeD)
  with assms(2,3) have "map (\<lambda>e. b_id (heap s (settings e))) (customSelections s) ! j =
      map (\<lambda>e. b_id (heap s (settings e))) (customSelections s) ! i"
    by simp
  with assms(1,2) i(1) have "j = i"
    by (simp add: overlayUnique_def nth_eq_iff_index_eq del: nth_map)
  with Some show ?thesis by simp
qed

lemma clearBorders_None_cleared:
  assumes w: "wellFormed s" and b: "b \<in> set (savedBorders s)"
  shows "cellView (clearBorders None s) (b_row (heap s b)) (b_col (heap s b)) =
     (None, [heap s b], [])"
proof -
  let ?s1 = "clearBorders None s"
  let ?r = "b_row (heap s b)" and ?c = "b_col (heap s b)"
  from w have v: "validAddrs s" and k: "keysOk s" and u: "storeUnique s" and o: "overlayUnique s"
    by (simp_all add: wellFormed_def wfBase_def)
  from v b have "b < nextAddr s" by (simp add: validAddrs_def)
  with k have X: "b_id (heap s b) = createId ?r ?c" by (simp add: keysOk_def)
  have w1: "wellFormed ?s1" by (rule clearBorders_wellFormed [OF w])
  have f: "savedBorders ?s1 = savedBorders s" "heap ?s1 = heap s"
    "map settings (customSelections ?s1) = map settings (customSelections s)"
    by (simp_all add: clearBorders_None)
  note dn = fold_clearOne_done [OF b, of s, folded clearBorders_None]
  have m: "metaAt ?s1 ?r ?c = None" using dn by (simp add: metaAt_def)
  have "filter (\<lambda>a. b_id (heap s a) = b_id (heap s b)) (savedBorders s) = [b]"
    using filter_unique [of "\<lambda>a. b_id (heap s a)" "savedBorders s" b] u b
    by (simp add: storeUnique_def)
  then have st: "bordersAt ?s1 ?r ?c = [heap s b]"
    by (simp add: bordersAt_by_id [OF wellFormed_wfBase [OF w1]] f X [symmetric])
  have len: "length (customSelections ?s1) = length (customSelections s)"
    using f(3) by (metis length_map)
  have "cellRange e = None"
    if e: "e \<in> set (customSelections ?s1)" "b_id (heap s (settings e)) = createId ?r ?c" for e
  proof -
    from e(1) obtain j where j: "j < length (customSelections s)" "e = customSelections ?s1 ! j"
      by (auto simp: in_set_conv_nth len)
    have "settings e = settings (customSelections s ! j)"
      using j f(3) len by (metis nth_map)
    with e(2) have "overlayIndex s (createId ?r ?c) = Some j"
      by (intro overlayIndex_unique [OF o j(1)]) simp
    with dn j(2) show ?thesis by (simp add: X)
  qed
  then have "filter (\<lambda>e. b_id (heap s (settings e)) = createId ?r ?c \<and> cellRange e \<noteq> None)
      (customSelections ?s1) = []"
    by (auto simp: filter_empty_conv)
  then have "liveAt ?s1 ?r ?c = []" by (simp add: liveAt_def f)
  with m st show ?thesis by (simp add: cellView_def)
qed

text \<open>
  C10. The no-argument \<^verbatim>\<open>clearBorders\<close> leaves \<^verbatim>\<open>savedBorders\<close> and the stored objects as
  they are. On a well-formed state, \<^verbatim>\<open>disablePlugin\<close> leaves every stored record in
  the list, with no metadata and no live overlay entry at its cell; and
  \<^verbatim>\<open>updatePlugin\<close> with a non-array \<^verbatim>\<open>customBorders\<close> setting returns, and re-applies
  every stored record: its cell then has the rebuilt record as metadata, as its only
  stored record and as its only live overlay entry.
\<close>

theorem C10_cleared_borders_reappear:
  assumes "wellFormed s"
  shows "savedBorders (clearBorders None s) = savedBorders s \<and>
     heap (clearBorders None s) = heap s \<and>
     (\<exists>s'. updatePlugin NonArray s = Some s' \<and>
        (\<forall>border\<in>set (savedBorders s).
           cellView (disablePlugin s) (b_row (heap s border)) (b_col (heap s border)) =
             (None, [heap s border], []) \<and>
           cellView s' (b_row (heap s border)) (b_col (heap s border)) =
             (Some (reapplied (heap s border)), [reapplied (heap s border)],
              [reapplied (heap s border)])))"
proof -
  let ?s1 = "clearBorders None s"
  have f: "savedBorders ?s1 = savedBorders s" "heap ?s1 = heap s"
    by (simp_all add: clearBorders_None)
  have w1: "wellFormed ?s1" by (rule clearBorders_wellFormed [OF assms])
  from createCustomBordersSaved_reapplies [OF w1, of 0 "length (savedBorders ?s1)"]
  obtain s' where run: "createCustomBordersSaved (length (savedBorders s)) 0 ?s1 = Some s'"
    and re: "\<forall>b\<in>set (savedBorders s).
        cellView s' (b_row (heap s b)) (b_col (heap s b)) =
          (Some (reapplied (heap s b)), [reapplied (heap s b)], [reapplied (heap s b)])"
    by (auto simp: f)
  have "updatePlugin NonArray s = Some s'"
    using run by (simp add: updatePlugin_def disablePlugin_def changeBorderSettings_def f)
  with re clearBorders_None_cleared [OF assms] f show ?thesis
    by (simp add: disablePlugin_def)
qed

theorem C10_cleared_borders_reappear_witness:
  "wellFormed (after [SetBorders [Coords 1 1 1 1] (Some topOnly)]) \<and>
   savedBorders (clearBorders None (after [SetBorders [Coords 1 1 1 1] (Some topOnly)])) = [0] \<and>
   cellView (disablePlugin (after [SetBorders [Coords 1 1 1 1] (Some topOnly)])) 1 1 =
     (None, [extendDefaultBorder (createEmptyBorders 1 1) topOnly], []) \<and>
   (\<exists>s'. updatePlugin NonArray (after [SetBorders [Coords 1 1 1 1] (Some topOnly)]) = Some s' \<and>
      cellView s' 1 1 =
        (Some (reapplied (extendDefaultBorder (createEmptyBorders 1 1) topOnly)),
         [reapplied (extendDefaultBorder (createEmptyBorders 1 1) topOnly)],
         [reapplied (extendDefaultBorder (createEmptyBorders 1 1) topOnly)]))"
proof -
  let ?s = "after [SetBorders [Coords 1 1 1 1] (Some topOnly)]"
  have w: "wellFormed ?s" by (rule after_wellFormed)
  have e: "savedBorders ?s = [0]" "b_row (heap ?s 0) = 1" "b_col (heap ?s 0) = 1"
    "heap ?s 0 = extendDefaultBorder (createEmptyBorders 1 1) topOnly"
    by code_simp+
  from C10_cleared_borders_reappear [OF w] e w show ?thesis by auto
qed

section \<open>Loops over cells\<close>

lemma nested_fold_product:
  "fold (\<lambda>a. fold (\<lambda>b. f a b) bs) as s = fold (\<lambda>(a, b). f a b) (List.product as bs) s"
proof (induction as arbitrary: s)
  case Nil
  show ?case by simp
next
  case (Cons a as)
  have "fold (\<lambda>(a, b). f a b) (map (Pair a) bs) s = fold (\<lambda>b. f a b) bs s" for s
    by (simp add: fold_map comp_def)
  with Cons.IH show ?case by simp
qed

text \<open>
  A loop of steps, each on the cell \<open>cellOf x\<close>. A cell that no step changes is seen
  as before; a cell that some step leaves in a view satisfying \<open>Q\<close>, and that the other
  steps do not change, is seen to satisfy \<open>Q\<close> in the end.
\<close>

lemma fold_steps_untouched:
  assumes "wellFormed s"
    and "\<And>x s. x \<in> set xs \<Longrightarrow> wellFormed s \<Longrightarrow> wellFormed (step x s)"
    and "\<And>x s. x \<in> set xs \<Longrightarrow> wellFormed s \<Longrightarrow> cellView (step x s) r c = cellView s r c"
  shows "cellView (fold step xs s) r c = cellView s r c"
  using assms
proof (induction xs arbitrary: s)
  case Nil
  show ?case by simp
next
  case (Cons x xs)
  have "cellView (fold step xs (step x s)) r c = cellView (step x s) r c"
    by (rule Cons.IH) (simp_all add: Cons.prems)
  then show ?case by (simp add: Cons.prems)
qed

lemma fold_steps_touched:
  assumes "wellFormed s"
    and "\<And>x s. x \<in> set xs \<Longrightarrow> wellFormed s \<Longrightarrow> wellFormed (step x s)"
    and "\<And>x s. x \<in> set xs \<Longrightarrow> wellFormed s \<Longrightarrow> cellOf x \<noteq> (r, c) \<Longrightarrow>
           cellView (step x s) r c = cellView s r c"
    and "\<And>x s. x \<in> set xs \<Longrightarrow> wellFormed s \<Longrightarrow> cellOf x = (r, c) \<Longrightarrow>
           Q (cellView (step x s) r c)"
    and "Q (cellView s r c) \<or> (\<exists>x\<in>set xs. cellOf x = (r, c))"
  shows "Q (cellView (fold step xs s) r c)"
  using assms
proof (induction xs arbitrary: s)
  case Nil
  then show ?case by simp
next
  case (Cons x xs)
  have w: "wellFormed (step x s)" by (simp add: Cons.prems)
  have "Q (cellView (step x s) r c) \<or> (\<exists>y\<in>set xs. cellOf y = (r, c))"
  proof (cases "cellOf x = (r, c)")
    case True
    then show ?thesis by (simp add: Cons.prems)
  next
    case False
    then have "cellView (step x s) r c = cellView s r c" by (simp add: Cons.prems)
    with Cons.prems(5) False show ?thesis by auto
  qed
  with w have "Q (cellView (fold step xs (step x s)) r c)"
    by (intro Cons.IH) (simp_all add: Cons.prems)
  then show ?case by simp
qed

lemma newObject_cellView:
  assumes "wellFormed s"
  shows "cellView (snd (newObject obj s)) r c = cellView s r c"
proof -
  let ?s = "snd (newObject obj s)"
  from assms have v: "validAddrs s" by (simp add: wellFormed_def wfBase_def)
  have old: "heap ?s a = heap s a" if "a < nextAddr s" for a using that by simp
  have "metaAt ?s r c = metaAt s r c"
  proof (cases "cellMeta s (r, c)")
    case None
    then show ?thesis by (simp add: metaAt_def)
  next
    case (Some a)
    with v have "a < nextAddr s" by (simp add: validAddrs_def)
    with Some show ?thesis by (simp add: metaAt_def)
  qed
  moreover have "bordersAt ?s r c = bordersAt s r c"
  proof -
    have mp: "map (heap ?s) (savedBorders s) = map (heap s) (savedBorders s)"
      using v by (intro map_cong refl old) (auto simp: validAddrs_def)
    have sb: "savedBorders ?s = savedBorders s" by simp
    show ?thesis unfolding bordersAt_def sb mp ..
  qed
  moreover have "liveAt ?s r c = liveAt s r c"
  proof -
    let ?P = "\<lambda>e. b_id (heap s (settings e)) = createId r c \<and> cellRange e \<noteq> None"
    have fl: "filter (\<lambda>e. b_id (heap ?s (settings e)) = createId r c \<and> cellRange e \<noteq> None)
        (customSelections s) = filter ?P (customSelections s)"
      using v by (intro filter_cong refl) (auto simp: validAddrs_def)
    have mp: "map (\<lambda>e. heap ?s (settings e)) (filter ?P (customSelections s)) =
        map (\<lambda>e. heap s (settings e)) (filter ?P (customSelections s))"
      using v by (intro map_cong refl old) (auto simp: validAddrs_def)
    have cs: "customSelections ?s = customSelections s" by simp
    show ?thesis unfolding liveAt_def cs fl mp ..
  qed
  ultimately show ?thesis by (simp add: cellView_def)
qed

lemma prepareRangeCell_atCell:
  assumes w: "wellFormed s" and rc: "rangeCellBorder rng spec r c = (obj, add, meta)"
  shows "add > 0 \<Longrightarrow> meta \<Longrightarrow>
      cellView (prepareRangeCell rng spec r c s) r' c' =
        (if (r', c') = (r, c)
         then (Some obj, if countHide obj = 4 then [] else [obj], [obj])
         else cellView s r' c')"
    and "add = 0 \<Longrightarrow> cellView (prepareRangeCell rng spec r c s) r' c' = cellView s r' c'"
proof -
  from rangeCellBorder_keys [of rng spec r c] rc
  have k: "b_id obj = createId r c" "b_row obj = r" "b_col obj = c" by simp_all
  let ?s1 = "snd (newObject obj s)"
  have 1: "wellFormed ?s1" by (rule newObject_wellFormed [OF w]) (simp add: k)
  {
    assume "add = 0"
    moreover have "add = 0 \<Longrightarrow> \<not> meta"
      using rc by (auto simp: rangeCellBorder_def Let_def split: if_splits option.splits)
    ultimately have "prepareRangeCell rng spec r c s = ?s1"
      by (simp add: prepareRangeCell_def rc Let_def case_prod_beta)
    then show "cellView (prepareRangeCell rng spec r c s) r' c' = cellView s r' c'"
      by (simp add: newObject_cellView [OF w])
  }
  {
    assume a: "add > 0" "meta"
    let ?s2 = "setCellMeta r c (nextAddr s) ?s1"
    let ?s' = "insertBorderIntoSettings (nextAddr s) ?s2"
    have 2: "wellFormed ?s2" by (rule setCellMeta_wellFormed [OF 1]) (simp_all add: k)
    have s': "prepareRangeCell rng spec r c s = ?s'"
      using a by (simp add: prepareRangeCell_def rc Let_def case_prod_beta)
    have n: "nextAddr s < nextAddr ?s2" "b_id (heap ?s2 (nextAddr s)) = createId r c"
      "heap ?s2 (nextAddr s) = obj"
      by (simp_all add: k)
    note at = insertBorderIntoSettings_atCell [OF 2 n(1,2)]
    have "cellMeta ?s' (r, c) = Some (nextAddr s)"
      by (simp add: insertBorderIntoSettings_steps)
    then have "metaAt ?s' r c = Some obj" using at(1) n(3) by (simp add: metaAt_def)
    with at(2,3) n(3)
    have own: "cellView ?s' r c = (Some obj, if countHide obj = 4 then [] else [obj], [obj])"
      by (simp add: cellView_def)
    have other: "cellView ?s' r' c' = cellView s r' c'" if "(r', c') \<noteq> (r, c)"
      using sameElsewhere_cellView [OF prepareRangeCell_sameElsewhere [OF w, of r c rng spec] w
          prepareRangeCell_wellFormed [OF w, of rng spec r c] that]
      by (simp add: s')
    from own other show "cellView (prepareRangeCell rng spec r c s) r' c' =
        (if (r', c') = (r, c)
         then (Some obj, if countHide obj = 4 then [] else [obj], [obj])
         else cellView s r' c')"
      by (auto simp: s')
  }
qed

section \<open>Ranges of the context menu and of the configuration\<close>


lemma prepareRangeCell_other:
  assumes "wellFormed s" "(r', c') \<noteq> (r, c)"
  shows "cellView (prepareRangeCell rng spec r c s) r' c' = cellView s r' c'"
  by (rule sameElsewhere_cellView [OF prepareRangeCell_sameElsewhere [OF assms(1)] assms(1)
        prepareRangeCell_wellFormed [OF assms(1)] assms(2)])




lemma createCustomBorders_rect:
  "createCustomBorders [RangeBorder (rangeOf 0 0 2 2) spec] s =
     fold (\<lambda>(rowIndex, colIndex). prepareRangeCell (rangeOf 0 0 2 2) spec rowIndex colIndex)
       (List.product [0..2] [0..2]) s"
  by (simp add: createCustomBorders_def arrayEach_def prepareBorderFromCustomAddedRange_def
      rangeEach_fold rangeOf_def coords_def nested_fold_product)

lemma rect_cell_set:
  assumes "wellFormed s"
    and rc: "rangeCellBorder (rangeOf 0 0 2 2) spec r c = (obj, add, True)" "add > 0"
    and "r \<in> {0..2}" "c \<in> {0..2}"
  shows "cellView (createCustomBorders [RangeBorder (rangeOf 0 0 2 2) spec] s) r c =
     (Some obj, if countHide obj = 4 then [] else [obj], [obj])"
proof -
  let ?rng = "rangeOf 0 0 2 2"
  let ?step = "\<lambda>(rowIndex, colIndex). prepareRangeCell ?rng spec rowIndex colIndex"
  let ?xs = "List.product [0..2::int] [0..2::int]"
  have "(\<lambda>v. v = (Some obj, if countHide obj = 4 then [] else [obj], [obj]))
      (cellView (fold ?step ?xs s) r c)"
  proof (rule fold_steps_touched [where cellOf = "\<lambda>x. x"])
    show "wellFormed s" by (rule assms(1))
    show "wellFormed (?step x s0)" if "x \<in> set ?xs" "wellFormed s0" for x s0
    proof -
      obtain a b where "x = (a, b)" by (cases x)
      with that(2) show ?thesis by (simp add: prepareRangeCell_wellFormed)
    qed
    show "cellView (?step x s0) r c = cellView s0 r c" if "wellFormed s0" "x \<noteq> (r, c)" for x s0
    proof -
      obtain a b where x: "x = (a, b)" by (cases x)
      with that(2) have "(r, c) \<noteq> (a, b)" by auto
      with that(1) show ?thesis by (simp add: x prepareRangeCell_other)
    qed
    show "cellView (?step x s0) r c = (Some obj, if countHide obj = 4 then [] else [obj], [obj])"
      if "wellFormed s0" "x = (r, c)" for x s0
      using that prepareRangeCell_atCell(1) [OF that(1) rc(1) rc(2), of r c] by simp
    have "(r, c) \<in> set ?xs" using assms(4,5) by simp
    then show "cellView s r c = (Some obj, if countHide obj = 4 then [] else [obj], [obj]) \<or>
        (\<exists>x\<in>set ?xs. x = (r, c))"
      by simp
  qed
  then show ?thesis by (simp only: createCustomBorders_rect)
qed

lemma rect_cell_untouched:
  assumes "wellFormed s"
    and rc: "rangeCellBorder (rangeOf 0 0 2 2) spec r c = (obj, 0, meta)"
  shows "cellView (createCustomBorders [RangeBorder (rangeOf 0 0 2 2) spec] s) r c = cellView s r c"
proof -
  let ?rng = "rangeOf 0 0 2 2"
  let ?step = "\<lambda>(rowIndex, colIndex). prepareRangeCell ?rng spec rowIndex colIndex"
  let ?xs = "List.product [0..2::int] [0..2::int]"
  have "cellView (fold ?step ?xs s) r c = cellView s r c"
  proof (rule fold_steps_untouched [OF assms(1)])
    show "wellFormed (?step x s0)" if "x \<in> set ?xs" "wellFormed s0" for x s0
    proof -
      obtain a b where "x = (a, b)" by (cases x)
      with that(2) show ?thesis by (simp add: prepareRangeCell_wellFormed)
    qed
    show "cellView (?step x s0) r c = cellView s0 r c" if "x \<in> set ?xs" "wellFormed s0" for x s0
    proof (cases "x = (r, c)")
      case True
      with prepareRangeCell_atCell(2) [OF that(2) rc, of r c] show ?thesis by simp
    next
      case False
      obtain a b where x: "x = (a, b)" by (cases x)
      with False have "(r, c) \<noteq> (a, b)" by auto
      with that(2) show ?thesis by (simp add: x prepareRangeCell_other)
    qed
  qed
  then show ?thesis by (simp only: createCustomBorders_rect)
qed

text \<open>
  C7. On a well-formed state, \<^verbatim>\<open>createCustomBorders\<close> with the entry
  \<^verbatim>\<open>{range: (0,0)-(2,2), top: {}, left: {}}\<close> leaves the cell (0,0) with one record
  whose top and left edges only are not hidden, the cell (0,1) with one record whose
  top edge only is not hidden, the cell (1,0) with one record whose left edge only is
  not hidden, and the cell (1,1) as it was (with no record on a new plugin).
\<close>

theorem C7_corner_double_edge:
  assumes "wellFormed s"
  shows "cellView (createCustomBorders [RangeBorder (rangeOf 0 0 2 2) topAndLeft] s) 0 0 =
           (Some ((createEmptyBorders 0 0)\<lparr>b_top := emptyStyle, b_left := emptyStyle\<rparr>),
            [(createEmptyBorders 0 0)\<lparr>b_top := emptyStyle, b_left := emptyStyle\<rparr>],
            [(createEmptyBorders 0 0)\<lparr>b_top := emptyStyle, b_left := emptyStyle\<rparr>]) \<and>
         hiddenEdges ((createEmptyBorders 0 0)\<lparr>b_top := emptyStyle, b_left := emptyStyle\<rparr>) =
           (False, True, True, False) \<and>
         cellView (createCustomBorders [RangeBorder (rangeOf 0 0 2 2) topAndLeft] s) 0 1 =
           (Some ((createEmptyBorders 0 1)\<lparr>b_top := emptyStyle\<rparr>),
            [(createEmptyBorders 0 1)\<lparr>b_top := emptyStyle\<rparr>],
            [(createEmptyBorders 0 1)\<lparr>b_top := emptyStyle\<rparr>]) \<and>
         hiddenEdges ((createEmptyBorders 0 1)\<lparr>b_top := emptyStyle\<rparr>) =
           (False, True, True, True) \<and>
         cellView (createCustomBorders [RangeBorder (rangeOf 0 0 2 2) topAndLeft] s) 1 0 =
           (Some ((createEmptyBorders 1 0)\<lparr>b_left := emptyStyle\<rparr>),
            [(createEmptyBorders 1 0)\<lparr>b_left := emptyStyle\<rparr>],
            [(createEmptyBorders 1 0)\<lparr>b_left := emptyStyle\<rparr>]) \<and>
         hiddenEdges ((createEmptyBorders 1 0)\<lparr>b_left := emptyStyle\<rparr>) =
           (True, True, True, False) \<and>
         cellView (createCustomBorders [RangeBorder (rangeOf 0 0 2 2) topAndLeft] s) 1 1 =
           cellView s 1 1"
proof -
  let ?rng = "rangeOf 0 0 2 2"
  have r00: "rangeCellBorder ?rng topAndLeft 0 0 =
      ((createEmptyBorders 0 0)\<lparr>b_top := emptyStyle, b_left := emptyStyle\<rparr>, 2, True)"
    by code_simp
  have r01: "rangeCellBorder ?rng topAndLeft 0 1 =
      ((createEmptyBorders 0 1)\<lparr>b_top := emptyStyle\<rparr>, 1, True)"
    by code_simp
  have r10: "rangeCellBorder ?rng topAndLeft 1 0 =
      ((createEmptyBorders 1 0)\<lparr>b_left := emptyStyle\<rparr>, 1, True)"
    by code_simp
  have r11: "rangeCellBorder ?rng topAndLeft 1 1 = (createEmptyBorders 1 1, 0, False)"
    by code_simp
  have h: "hiddenEdges ((createEmptyBorders 0 0)\<lparr>b_top := emptyStyle, b_left := emptyStyle\<rparr>) =
           (False, True, True, False)"
    "hiddenEdges ((createEmptyBorders 0 1)\<lparr>b_top := emptyStyle\<rparr>) = (False, True, True, True)"
    "hiddenEdges ((createEmptyBorders 1 0)\<lparr>b_left := emptyStyle\<rparr>) = (True, True, True, False)"
    by code_simp+
  have c: "countHide ((createEmptyBorders 0 0)\<lparr>b_top := emptyStyle, b_left := emptyStyle\<rparr>) \<noteq> 4"
    "countHide ((createEmptyBorders 0 1)\<lparr>b_top := emptyStyle\<rparr>) \<noteq> 4"
    "countHide ((createEmptyBorders 1 0)\<lparr>b_left := emptyStyle\<rparr>) \<noteq> 4"
    by code_simp+
  from rect_cell_set [OF assms r00] rect_cell_set [OF assms r01] rect_cell_set [OF assms r10]
    rect_cell_untouched [OF assms r11] h c
  show ?thesis by simp
qed

theorem C7_corner_double_edge_witness:
  "wellFormed initial \<and>
   bordersAt (createCustomBorders [RangeBorder (rangeOf 0 0 2 2) topAndLeft] initial) 0 0 =
     [(createEmptyBorders 0 0)\<lparr>b_top := emptyStyle, b_left := emptyStyle\<rparr>] \<and>
   bordersAt (createCustomBorders [RangeBorder (rangeOf 0 0 2 2) topAndLeft] initial) 0 1 =
     [(createEmptyBorders 0 1)\<lparr>b_top := emptyStyle\<rparr>] \<and>
   bordersAt (createCustomBorders [RangeBorder (rangeOf 0 0 2 2) topAndLeft] initial) 1 0 =
     [(createEmptyBorders 1 0)\<lparr>b_left := emptyStyle\<rparr>] \<and>
   cellView (createCustomBorders [RangeBorder (rangeOf 0 0 2 2) topAndLeft] initial) 1 1 =
     (None, [], [])"
proof -
  have e: "cellView initial 1 1 = (None, [], [])" by code_simp
  from C7_corner_double_edge [OF initial_wellFormed] e initial_wellFormed show ?thesis
    by (simp add: cellView_def)
qed

end
